theory Spec2Isabelle
  imports
    Complex_Main
    "HOL-Library.Multiset"
    "HOL-Library.Char_ord"
    "HOL-Library.List_Lexorder"
begin

section \<open>Python values, errors and the random source\<close>

text \<open>
  The two scripts \<^verbatim>\<open>generate_dummy_tsv.py\<close> and \<^verbatim>\<open>upload_files.py\<close> are embedded
  function by function. Values that travel through rows are Python objects; the ones that
  can be produced by the generator or stand in a schema's \<^verbatim>\<open>enum\<close> are modelled by
  \<open>pyval\<close>. A character is a code point below 256, and strings are compared by code
  points.
\<close>

text \<open>
  A Python \<^verbatim>\<open>float\<close> is a binary double: finite, with the rational it stands for, or one
  of the three special values. \<^verbatim>\<open>json.load\<close> yields the special values too, for the
  literals \<^verbatim>\<open>Infinity\<close>, \<^verbatim>\<open>-Infinity\<close> and \<^verbatim>\<open>NaN\<close> and for decimals out of range.
\<close>

datatype pyfloat = Finite rat | Infinity | Minus_Infinity | NaN

datatype pyval =
    PNone
  | PBool bool
  | PInt int
  | PFloat pyfloat
  | PStr string
  | PList "pyval list"

text \<open>A JSON number is an integer, of any size, or a float.\<close>

datatype num = NInt int | NFloat pyfloat

text \<open>Python truthiness, as used by \<^verbatim>\<open>not row[req]\<close>.\<close>

fun truthy :: "pyval \<Rightarrow> bool" where
  "truthy PNone = False"
| "truthy (PBool b) = b"
| "truthy (PInt i) = (i \<noteq> 0)"
| "truthy (PFloat x) = (x \<noteq> Finite 0)"
| "truthy (PStr s) = (s \<noteq> [])"
| "truthy (PList vs) = (vs \<noteq> [])"

datatype py_error =
  ValueError | IndexError | TypeError | OSError | OverflowError | NotImplementedError

text \<open>
  The process-wide generator of the \<^verbatim>\<open>random\<close> module is an explicit tape of naturals:
  every primitive consumes what it needs and returns the rest. An exhausted tape keeps
  yielding 0. Quantifying over all tapes covers every outcome the generator can have.
\<close>

type_synonym rng = "nat list"

fun draw :: "rng \<Rightarrow> nat \<times> rng" where
  "draw [] = (0, [])"
| "draw (r # rs) = (r, rs)"

text \<open>\<^verbatim>\<open>random.randint(a, b)\<close>: an integer of \<open>[a, b]\<close>; an empty range raises.\<close>

definition randint :: "int \<Rightarrow> int \<Rightarrow> rng \<Rightarrow> py_error + (int \<times> rng)" where
  "randint a b g =
     (if b < a then Inl ValueError
      else (case draw g of (r, g') \<Rightarrow> Inr (a + int (r mod nat (b - a + 1)), g')))"

text \<open>\<^verbatim>\<open>random.choice(seq)\<close>: an element of the sequence; an empty one raises.\<close>

definition choice :: "'a list \<Rightarrow> rng \<Rightarrow> py_error + ('a \<times> rng)" where
  "choice xs g =
     (if xs = [] then Inl IndexError
      else (case draw g of (r, g') \<Rightarrow> Inr (xs ! (r mod length xs), g')))"

text \<open>\<^verbatim>\<open>random.choices(population, k=k)\<close>: \<open>k\<close> draws with replacement.\<close>

fun choices :: "'a list \<Rightarrow> nat \<Rightarrow> rng \<Rightarrow> 'a list \<times> rng" where
  "choices pop 0 g = ([], g)"
| "choices pop (Suc k) g =
     (case draw g of (r, g') \<Rightarrow>
        (case choices pop k g' of (cs, g'') \<Rightarrow> (pop ! (r mod length pop) # cs, g'')))"

text \<open>
  \<^verbatim>\<open>random.sample(population, k)\<close>: \<open>k\<close> draws without replacement, that is from
  pairwise different positions of the population; more draws than positions raise.
\<close>

fun sample_positions :: "'a list \<Rightarrow> nat \<Rightarrow> rng \<Rightarrow> 'a list \<times> rng" where
  "sample_positions pop 0 g = ([], g)"
| "sample_positions pop (Suc k) g =
     (if pop = [] then ([], g)
      else (case draw g of (r, g') \<Rightarrow>
        (let i = r mod length pop in
         (case sample_positions (take i pop @ drop (Suc i) pop) k g' of
            (xs, g'') \<Rightarrow> (pop ! i # xs, g'')))))"

definition sample :: "'a list \<Rightarrow> int \<Rightarrow> rng \<Rightarrow> py_error + ('a list \<times> rng)" where
  "sample pop k g =
     (if k < 0 \<or> int (length pop) < k then Inl ValueError
      else Inr (sample_positions pop (nat k) g))"

section \<open>Random strings, file names and dates\<close>

definition alphabet :: string where
  "alphabet = ''abcdefghijklmnopqrstuvwxyzABCDEFGHIJKLMNOPQRSTUVWXYZ0123456789''"

definition generate_random_string :: "nat \<Rightarrow> rng \<Rightarrow> string \<times> rng" where
  "generate_random_string len g = choices alphabet len g"

definition generate_random_filename :: "string \<Rightarrow> rng \<Rightarrow> string \<times> rng" where
  "generate_random_filename extension g =
     (case generate_random_string 12 g of (s, g') \<Rightarrow> (s @ extension, g'))"

text \<open>
  Two things the generator takes from the host it runs on are parameters of the embedding.
  The wall clock: \<open>date_text hst d\<close> is the text
  \<^verbatim>\<open>(datetime.now() - timedelta(days=d)).strftime('%Y-%m-%d')\<close>.
  The floating-point unit: \<open>round_uniform hst a b k\<close> is what
  \<^verbatim>\<open>round(a + (b - a) * r, 2)\<close> evaluates to in Python's arithmetic on ints and binary
  doubles, where \<^verbatim>\<open>r\<close> is the double \<open>k / 2\<^sup>5\<^sup>3\<close> that \<^verbatim>\<open>random.random()\<close> returned.
  That is a float, which may be infinite or not a number, or an \<^verbatim>\<open>OverflowError\<close> when
  an int bound is too large for a double. Nothing is assumed of either.
\<close>

record host =
  date_text :: "nat \<Rightarrow> string"
  round_uniform :: "num \<Rightarrow> num \<Rightarrow> nat \<Rightarrow> py_error + pyfloat"

definition generate_random_date :: "host \<Rightarrow> rng \<Rightarrow> py_error + (string \<times> rng)" where
  "generate_random_date hst g =
     (case randint 0 365 g of
        Inl e \<Rightarrow> Inl e
      | Inr (days_back, g') \<Rightarrow> Inr (date_text hst (nat days_back), g'))"

section \<open>Schema and the type-driven value synthesizer\<close>

text \<open>
  A property descriptor, with the keys the generator reads. A key that is absent from the
  JSON object is \<open>None\<close>.
\<close>

datatype descriptor = Descriptor
  (ptype: "string option")
  (enum: "pyval list option")
  (items: "descriptor option")
  (format: "string option")
  (minimum: "num option")
  (maximum: "num option")

definition empty_descriptor :: descriptor where
  "empty_descriptor = Descriptor None None None None None None"

record schema =
  properties :: "(string \<times> descriptor) list option"
  required :: "string list option"

text \<open>The comprehension \<^verbatim>\<open>[generate_random_string() for _ in range(n)]\<close>.\<close>

fun random_strings :: "nat \<Rightarrow> rng \<Rightarrow> pyval list \<times> rng" where
  "random_strings 0 g = ([], g)"
| "random_strings (Suc n) g =
     (case generate_random_string 20 g of (s, g') \<Rightarrow>
        (case random_strings n g' of (ss, g'') \<Rightarrow> (PStr s # ss, g'')))"

text \<open>
  \<^verbatim>\<open>random.randint\<close> on the bounds of an integer property. A float bound is refused
  by \<^verbatim>\<open>randint\<close>, as Python 3.12 and later do.
\<close>

fun randint_num :: "num \<Rightarrow> num \<Rightarrow> rng \<Rightarrow> py_error + (int \<times> rng)" where
  "randint_num (NInt a) (NInt b) g = randint a b g"
| "randint_num _ _ g = Inl TypeError"

definition generate_dummy_value ::
  "host \<Rightarrow> descriptor \<Rightarrow> rng \<Rightarrow> py_error + (pyval \<times> rng)" where
  "generate_dummy_value hst prop_details g =
     (let prop_type = (case ptype prop_details of None \<Rightarrow> ''string'' | Some t \<Rightarrow> t) in
      (case enum prop_details of
         Some es \<Rightarrow> choice es g
       | None \<Rightarrow>
          if prop_type = ''array'' then
            (let its = (case items prop_details of None \<Rightarrow> empty_descriptor | Some d \<Rightarrow> d) in
             (case enum its of
                Some es \<Rightarrow>
                  (case randint 1 (min 3 (int (length es))) g of
                     Inl e \<Rightarrow> Inl e
                   | Inr (num_items, g') \<Rightarrow>
                       (case sample es num_items g' of
                          Inl e \<Rightarrow> Inl e
                        | Inr (vs, g'') \<Rightarrow> Inr (PList vs, g'')))
              | None \<Rightarrow>
                  (case randint 1 3 g of
                     Inl e \<Rightarrow> Inl e
                   | Inr (n, g') \<Rightarrow>
                       (case random_strings (nat n) g' of (ss, g'') \<Rightarrow> Inr (PList ss, g'')))))
          else if prop_type = ''string'' then
            (if format prop_details = Some ''date'' then
               (case generate_random_date hst g of
                  Inl e \<Rightarrow> Inl e
                | Inr (s, g') \<Rightarrow> Inr (PStr s, g'))
             else (case generate_random_string 20 g of (s, g') \<Rightarrow> Inr (PStr s, g')))
          else if prop_type = ''number'' \<or> prop_type = ''integer'' then
            (let max_val = (case maximum prop_details of None \<Rightarrow> NInt 100 | Some m \<Rightarrow> m);
                 min_val = (case minimum prop_details of None \<Rightarrow> NInt 1 | Some m \<Rightarrow> m) in
             if prop_type = ''number'' then
               (case draw g of (r, g') \<Rightarrow>
                  (case round_uniform hst min_val max_val (r mod 2 ^ 53) of
                     Inl e \<Rightarrow> Inl e
                   | Inr x \<Rightarrow> Inr (PFloat x, g')))
             else
               (case randint_num min_val max_val g of
                  Inl e \<Rightarrow> Inl e
                | Inr (i, g') \<Rightarrow> Inr (PInt i, g')))
          else (case generate_random_string 20 g of (s, g') \<Rightarrow> Inr (PStr s, g'))))"

section \<open>Row synthesis\<close>

text \<open>A header entry is the pair (randomized file name, header text).\<close>

type_synonym entry = "string \<times> string"

text \<open>A row is a Python dict: insertion-ordered, one value per key.\<close>

type_synonym row = "(string \<times> pyval) list"

text \<open>
  Assignment \<^verbatim>\<open>d[k] = v\<close> on an insertion-ordered dict: an existing key keeps its place,
  a new key goes to the end.
\<close>

fun dict_set :: "'k \<Rightarrow> 'v \<Rightarrow> ('k \<times> 'v) list \<Rightarrow> ('k \<times> 'v) list" where
  "dict_set k v [] = [(k, v)]"
| "dict_set k v (p # ps) = (if fst p = k then (k, v) # ps else p # dict_set k v ps)"

text \<open>The grouping loop: one step per entry of the header list.\<close>

definition add_to_group :: "entry \<Rightarrow> (string \<times> entry list) list \<Rightarrow> (string \<times> entry list) list" where
  "add_to_group e file_groups =
     (let filename = fst e;
          file_groups' = (if map_of file_groups filename = None
                          then dict_set filename [] file_groups else file_groups)
      in (case map_of file_groups' filename of
            None \<Rightarrow> file_groups'
          | Some grp \<Rightarrow> dict_set filename (grp @ [e]) file_groups'))"

definition group_by_file :: "entry list \<Rightarrow> (string \<times> entry list) list" where
  "group_by_file fasta_list = fold add_to_group fasta_list []"

text \<open>
  \<^verbatim>\<open>max(len(group) for group in file_groups.values())\<close>; the dict is never empty where the
  source takes the maximum, and lengths are naturals, so folding from 0 is the same.
\<close>

definition max_entries :: "(string \<times> entry list) list \<Rightarrow> nat" where
  "max_entries file_groups = fold (\<lambda>p m. max (length (snd p)) m) file_groups 0"

text \<open>The two nested loops that rebuild the list, appending as the source does.\<close>

definition interleave_step ::
  "(string \<times> entry list) list \<Rightarrow> nat \<Rightarrow> string \<Rightarrow> entry list \<Rightarrow> entry list" where
  "interleave_step file_groups i filename acc =
     (case map_of file_groups filename of
        None \<Rightarrow> acc
      | Some grp \<Rightarrow> if i < length grp then acc @ [grp ! i] else acc)"

definition interleave :: "entry list \<Rightarrow> entry list" where
  "interleave fasta_list =
     (let file_groups = group_by_file fasta_list in
      fold (\<lambda>i acc. fold (interleave_step file_groups i) (sort (map fst file_groups)) acc)
        [0 ..< max_entries file_groups] [])"

text \<open>The loop over \<^verbatim>\<open>properties.items()\<close> that fills one row.\<close>

fun fill_row ::
  "host \<Rightarrow> entry list \<Rightarrow> (string \<times> descriptor) list \<Rightarrow> row \<Rightarrow> nat \<Rightarrow> rng \<Rightarrow>
     py_error + (row \<times> nat \<times> rng)" where
  "fill_row hst fasta_list [] row fasta_index g = Inr (row, fasta_index, g)"
| "fill_row hst fasta_list ((prop_name, prop_details) # ps) row fasta_index g =
     (if prop_name = ''fasta_file_name'' then
        (if fasta_list \<noteq> [] then
           fill_row hst fasta_list ps
             (dict_set prop_name
                (PStr (fst (fasta_list ! (fasta_index mod length fasta_list)))) row)
             fasta_index g
         else (case generate_random_string 20 g of (s, g') \<Rightarrow>
           fill_row hst fasta_list ps (dict_set prop_name (PStr s) row) fasta_index g'))
      else if prop_name = ''fasta_header_name'' then
        (if fasta_list \<noteq> [] then
           fill_row hst fasta_list ps
             (dict_set prop_name
                (PStr (snd (fasta_list ! (fasta_index mod length fasta_list)))) row)
             (fasta_index + 1) g
         else (case generate_random_string 20 g of (s, g') \<Rightarrow>
           fill_row hst fasta_list ps (dict_set prop_name (PStr s) row) fasta_index g'))
      else
        (case generate_dummy_value hst prop_details g of
           Inl e \<Rightarrow> Inl e
         | Inr (v, g') \<Rightarrow>
             fill_row hst fasta_list ps (dict_set prop_name v row) fasta_index g'))"

text \<open>\<^verbatim>\<open>properties.get(req, {})\<close>.\<close>

definition get_descriptor :: "(string \<times> descriptor) list \<Rightarrow> string \<Rightarrow> descriptor" where
  "get_descriptor props req =
     (case map_of props req of None \<Rightarrow> empty_descriptor | Some d \<Rightarrow> d)"

text \<open>The backfill loop over the \<^verbatim>\<open>required\<close> list.\<close>

fun backfill ::
  "host \<Rightarrow> (string \<times> descriptor) list \<Rightarrow> string list \<Rightarrow> row \<Rightarrow> rng \<Rightarrow>
     py_error + (row \<times> rng)" where
  "backfill hst props [] row g = Inr (row, g)"
| "backfill hst props (req # reqs) row g =
     (if (case map_of row req of None \<Rightarrow> True | Some v \<Rightarrow> \<not> truthy v) then
        (case generate_dummy_value hst (get_descriptor props req) g of
           Inl e \<Rightarrow> Inl e
         | Inr (v, g') \<Rightarrow> backfill hst props reqs (dict_set req v row) g')
      else backfill hst props reqs row g)"

text \<open>The loop over \<^verbatim>\<open>range(num_rows)\<close>; the cursor and the generator are carried along.\<close>

fun rows_loop ::
  "host \<Rightarrow> (string \<times> descriptor) list \<Rightarrow> string list \<Rightarrow> entry list \<Rightarrow> nat \<Rightarrow>
     row list \<Rightarrow> nat \<Rightarrow> rng \<Rightarrow> py_error + (row list \<times> nat \<times> rng)" where
  "rows_loop hst props reqs fasta_list 0 data fasta_index g = Inr (data, fasta_index, g)"
| "rows_loop hst props reqs fasta_list (Suc n) data fasta_index g =
     (case fill_row hst fasta_list props [] fasta_index g of
        Inl e \<Rightarrow> Inl e
      | Inr (row, fasta_index', g') \<Rightarrow>
          (case backfill hst props reqs row g' of
             Inl e \<Rightarrow> Inl e
           | Inr (row', g'') \<Rightarrow>
               rows_loop hst props reqs fasta_list n (data @ [row']) fasta_index' g''))"

definition generate_dummy_data ::
  "host \<Rightarrow> schema \<Rightarrow> int \<Rightarrow> entry list \<Rightarrow> bool \<Rightarrow> rng \<Rightarrow> py_error + (row list \<times> rng)" where
  "generate_dummy_data hst sch num_rows fasta_list spread_evenly g =
     (let props = (case properties sch of None \<Rightarrow> [] | Some p \<Rightarrow> p);
          reqs = (case required sch of None \<Rightarrow> [] | Some r \<Rightarrow> r);
          fasta_list' = (if spread_evenly \<and> fasta_list \<noteq> []
                         then interleave fasta_list else fasta_list)
      in (case rows_loop hst props reqs fasta_list' (nat num_rows) [] 0 g of
            Inl e \<Rightarrow> Inl e
          | Inr (data, _, g') \<Rightarrow> Inr (data, g')))"

section \<open>Randomized copies of the sequence files\<close>

text \<open>
  A text file is the list of its lines as \<^verbatim>\<open>readlines\<close> returns them, each with its line
  end. A directory lists its entries; the content is \<open>None\<close> when opening or reading the
  entry raises.
\<close>

type_synonym directory = "(string \<times> string list option) list"

text \<open>\<^verbatim>\<open>line.startswith('>')\<close>.\<close>

definition is_header :: "string \<Rightarrow> bool" where
  "is_header line = (case line of [] \<Rightarrow> False | c # _ \<Rightarrow> c = CHR ''>'')"

text \<open>\<^verbatim>\<open>glob.glob(os.path.join(source_dir, '*' + ext))\<close>: the star skips hidden names.\<close>

definition glob_ext :: "string \<Rightarrow> directory \<Rightarrow> directory" where
  "glob_ext ext dir =
     filter (\<lambda>p. length ext \<le> length (fst p)
               \<and> drop (length (fst p) - length ext) (fst p) = ext
               \<and> hd (fst p) \<noteq> CHR ''.'') dir"

text \<open>The loop over the lines of one source file.\<close>

fun randomize_lines :: "string list \<Rightarrow> rng \<Rightarrow> string list \<times> rng" where
  "randomize_lines [] g = ([], g)"
| "randomize_lines (line # lines) g =
     (if is_header line then
        (case generate_random_string 20 g of (s, g') \<Rightarrow>
           (case randomize_lines lines g' of
              (modified_lines, g'') \<Rightarrow>
                (([CHR ''>''] @ s @ [CHR 0x0A]) # modified_lines, g'')))
      else
        (case randomize_lines lines g of
           (modified_lines, g') \<Rightarrow> (line # modified_lines, g')))"

text \<open>
  The loop over the source files. The scratch directory maps a file name to its lines;
  a source file that cannot be read is logged and leaves no copy. Writing the copy is
  taken to succeed.
\<close>

fun process_files ::
  "directory \<Rightarrow> (string \<times> string list) list \<Rightarrow> (string \<times> string) list \<Rightarrow> rng \<Rightarrow>
     (string \<times> string list) list \<times> (string \<times> string) list \<times> rng" where
  "process_files [] temp_dir file_mapping g = (temp_dir, file_mapping, g)"
| "process_files ((original_filename, content) # fs) temp_dir file_mapping g =
     (case generate_random_filename ''.fasta'' g of (new_filename, g1) \<Rightarrow>
        (let file_mapping' = file_mapping @ [(original_filename, new_filename)] in
         (case content of
            None \<Rightarrow> process_files fs temp_dir file_mapping' g1
          | Some lines \<Rightarrow>
              (case randomize_lines lines g1 of (modified_lines, g2) \<Rightarrow>
                 process_files fs (dict_set new_filename modified_lines temp_dir)
                   file_mapping' g2))))"

definition create_randomized_fasta_files ::
  "directory \<Rightarrow> rng \<Rightarrow>
     (string \<times> string list) list option \<times> (string \<times> string) list \<times> rng" where
  "create_randomized_fasta_files source_dir g =
     (let fasta_files = sort_key fst (glob_ext ''.fasta'' source_dir @ glob_ext ''.fa'' source_dir) in
      if fasta_files = [] then (None, [], g)
      else (case process_files fasta_files [] [] g of
              (temp_dir, file_mapping, g') \<Rightarrow> (Some temp_dir, file_mapping, g')))"

section \<open>Header extraction\<close>

text \<open>
  \<^verbatim>\<open>str.strip()\<close> removes leading and trailing whitespace, the characters for which
  \<^verbatim>\<open>str.isspace\<close> holds. Below 256 these are tab, line feed, vertical tab, form feed,
  carriage return, the four separators 0x1C to 0x1F, the blank, next line (0x85) and the
  no-break space (0xA0).
\<close>

definition is_space :: "char \<Rightarrow> bool" where
  "is_space c = (c \<in> set [CHR 0x09, CHR 0x0A, CHR 0x0B, CHR 0x0C, CHR 0x0D,
                          CHR 0x1C, CHR 0x1D, CHR 0x1E, CHR 0x1F, CHR '' '',
                          CHR 0x85, CHR 0xA0])"

definition strip :: "string \<Rightarrow> string" where
  "strip s = rev (dropWhile is_space (rev (dropWhile is_space s)))"

text \<open>The loop over the lines of one randomized file.\<close>

fun headers_of_lines :: "string \<Rightarrow> string list \<Rightarrow> entry list" where
  "headers_of_lines new_name [] = []"
| "headers_of_lines new_name (line # lines) =
     (let line' = strip line in
      if is_header line' then (new_name, tl line') # headers_of_lines new_name lines
      else headers_of_lines new_name lines)"

text \<open>The loop over the file mapping; a file that cannot be opened is logged and skipped.\<close>

fun extract_headers_from_temp_dir ::
  "(string \<times> string list) list \<Rightarrow> (string \<times> string) list \<Rightarrow> entry list" where
  "extract_headers_from_temp_dir temp_dir [] = []"
| "extract_headers_from_temp_dir temp_dir ((original_name, new_name) # ms) =
     (case map_of temp_dir new_name of
        None \<Rightarrow> []
      | Some lines \<Rightarrow> headers_of_lines new_name lines)
     @ extract_headers_from_temp_dir temp_dir ms"

section \<open>Pipeline A: the generator's main function\<close>

record args =
  schema_arg :: schema
  num_rows :: int
  spread :: "int option"
  tsv_name :: string

text \<open>An archive is the list of its entries, name and content.\<close>

datatype zip_content = Table "row list" | Sequence "string list"

text \<open>
  What the run leaves on the file system: the scratch directory, the temporary table
  file, and the output archive. \<open>None\<close> is absence.
\<close>

record world =
  scratch_dir :: "(string \<times> string list) list option"
  temp_tsv :: "row list option"
  output_zip :: "(string \<times> zip_content) list option"

datatype outcome = Returned | Raised py_error

text \<open>
  Where the operating system lets the run down, if anywhere: creating the temporary table
  file, writing it, or creating and writing the archive.
\<close>

datatype fault = No_fault | Tsv_create_fault | Tsv_write_fault | Zip_fault

text \<open>Python's \<^verbatim>\<open>xs[:n]\<close>; a negative \<open>n\<close> counts from the end.\<close>

definition slice_to :: "'a list \<Rightarrow> int \<Rightarrow> 'a list" where
  "slice_to xs n = (if n < 0 then take (nat (int (length xs) + n)) xs else take (nat n) xs)"

text \<open>The names of the sequence entries of an archive.\<close>

definition sequence_names :: "(string \<times> zip_content) list \<Rightarrow> string list" where
  "sequence_names zf = map fst (filter (\<lambda>p. case snd p of Sequence _ \<Rightarrow> True | Table _ \<Rightarrow> False) zf)"

text \<open>\<^verbatim>\<open>all_unique_files[:spread]\<close> with the spread clamped as the source does.\<close>

definition select_files :: "int option \<Rightarrow> entry list \<Rightarrow> string list" where
  "select_files spread_opt full_fasta_list =
     (let all_unique_files = sort (remdups (map fst full_fasta_list));
          max_spread = int (length all_unique_files);
          spread' = min (case spread_opt of None \<Rightarrow> max_spread | Some s \<Rightarrow> s) max_spread
      in slice_to all_unique_files spread')"

text \<open>
  The body of the \<^verbatim>\<open>try\<close> block. The serialisation of the table to text is not
  modelled: the table file holds the rows. A failed write leaves the file behind, here with
  no row; a failed archive is not counted as an archive.
\<close>

definition main_body ::
  "host \<Rightarrow> fault \<Rightarrow> args \<Rightarrow> (string \<times> string list) list \<Rightarrow> (string \<times> string) list \<Rightarrow> rng \<Rightarrow>
     outcome \<times> world" where
  "main_body hst flt a temp_dir file_mapping g =
     (let w0 = \<lparr>scratch_dir = Some temp_dir, temp_tsv = None, output_zip = None\<rparr>;
          full_fasta_list = extract_headers_from_temp_dir temp_dir file_mapping
      in
      if full_fasta_list = [] then (Returned, w0)
      else
        (let selected_files = select_files (spread a) full_fasta_list;
             fasta_list = filter (\<lambda>entry. fst entry \<in> set selected_files) full_fasta_list
         in
         (case generate_dummy_data hst (schema_arg a) (num_rows a) fasta_list True g of
            Inl e \<Rightarrow> (Raised e, w0)
          | Inr (data, g') \<Rightarrow>
              if data = [] then (Returned, w0)
              else if flt = Tsv_create_fault then (Raised OSError, w0)
              else if flt = Tsv_write_fault then (Raised OSError, w0\<lparr>temp_tsv := Some []\<rparr>)
              else if flt = Zip_fault then (Raised OSError, w0\<lparr>temp_tsv := Some data\<rparr>)
              else
                (Returned,
                 w0\<lparr>temp_tsv := None,
                    output_zip := Some ((tsv_name a, Table data) #
                      concat (map (\<lambda>fasta_file.
                                (case map_of temp_dir fasta_file of
                                   None \<Rightarrow> []
                                 | Some lines \<Rightarrow> [(fasta_file, Sequence lines)]))
                              selected_files))\<rparr>))))"

text \<open>
  \<^verbatim>\<open>main\<close>: without source files nothing is created; otherwise the \<^verbatim>\<open>finally\<close> clause
  removes the scratch directory whatever the body did.
\<close>

definition main :: "host \<Rightarrow> fault \<Rightarrow> args \<Rightarrow> directory \<Rightarrow> rng \<Rightarrow> outcome \<times> world" where
  "main hst flt a source_dir g =
     (case create_randomized_fasta_files source_dir g of
        (None, _, _) \<Rightarrow>
          (Returned, \<lparr>scratch_dir = None, temp_tsv = None, output_zip = None\<rparr>)
      | (Some temp_dir, file_mapping, g') \<Rightarrow>
          (case main_body hst flt a temp_dir file_mapping g' of
             (res, w) \<Rightarrow> (res, w\<lparr>scratch_dir := None\<rparr>)))"

section \<open>Pipeline B: the uploader\<close>







section \<open>The interleaving as the specification words it\<close>

text \<open>The entries of one file, in the order of the header list.\<close>

definition file_group :: "string \<Rightarrow> entry list \<Rightarrow> entry list" where
  "file_group f fasta_list = filter (\<lambda>e. fst e = f) fasta_list"

text \<open>
  The specification's reading of the even spread: the header list is grouped by file and
  rebuilt round-robin over the file names in sorted order, the \<open>i\<close>-th round taking the
  \<open>i\<close>-th entry of every group that has one. No group is longer than the list, so as
  many rounds as the list has entries exhaust every group.
\<close>

definition round_robin :: "entry list \<Rightarrow> entry list" where
  "round_robin fasta_list =
     concat (map (\<lambda>i.
        concat (map (\<lambda>f. if i < length (file_group f fasta_list)
                          then [file_group f fasta_list ! i] else [])
                 (sort (remdups (map fst fasta_list)))))
       [0 ..< length fasta_list])"

text \<open>The group a file name has in the dict of the grouping loop, empty for a missing key.\<close>

definition grp :: "(string \<times> entry list) list \<Rightarrow> string \<Rightarrow> entry list" where
  "grp file_groups f = (case map_of file_groups f of None \<Rightarrow> [] | Some g \<Rightarrow> g)"

section \<open>Hosts and networks for concrete runs\<close>

text \<open>
  Concrete runs need some host. This one answers every request for a date with the same
  day. Its floating-point unit is consulted in one run only, on an int bound that no
  double holds, and answers as Python does there, with \<^verbatim>\<open>OverflowError\<close>.
\<close>

definition epoch_host :: host where
  "epoch_host =
     \<lparr>date_text = (\<lambda>d. ''1970-01-01''), round_uniform = (\<lambda>a b k. Inl OverflowError)\<rparr>"


section \<open>What a finished row looks like\<close>

text \<open>
  A required field is filled in a row when the row has a value for it that is non-empty,
  or that \<^verbatim>\<open>generate_dummy_value\<close> produced from the field's descriptor.
\<close>

definition filled :: "host \<Rightarrow> (string \<times> descriptor) list \<Rightarrow> row \<Rightarrow> string \<Rightarrow> bool" where
  "filled hst props row r \<longleftrightarrow>
     (\<exists>v. map_of row r = Some v
        \<and> (truthy v \<or> (\<exists>g1 g2. generate_dummy_value hst (get_descriptor props r) g1 = Inr (v, g2))))"

text \<open>
  A finished row is a dict (no key twice) over the declared properties and the required
  names, with every required field filled.
\<close>

definition good_row :: "host \<Rightarrow> (string \<times> descriptor) list \<Rightarrow> string list \<Rightarrow> row \<Rightarrow> bool" where
  "good_row hst props reqs row \<longleftrightarrow>
     fst ` set row = fst ` set props \<union> set reqs
     \<and> distinct (map fst row)
     \<and> (\<forall>r \<in> set reqs. filled hst props row r)"

text \<open>A row refers to a header list when its file name field is the file of an entry.\<close>

definition refers_to :: "entry list \<Rightarrow> row \<Rightarrow> bool" where
  "refers_to fl row \<longleftrightarrow> (\<exists>e \<in> set fl. map_of row ''fasta_file_name'' = Some (PStr (fst e)))"

text \<open>Declared properties among which neither of the two special-cased names occurs.\<close>

definition plain :: "(string \<times> descriptor) list \<Rightarrow> bool" where
  "plain ps \<longleftrightarrow> ''fasta_file_name'' \<notin> fst ` set ps \<and> ''fasta_header_name'' \<notin> fst ` set ps"

text \<open>
  A row is paired with position \<open>k\<close> of a header list when its two special-cased fields
  are the two components of the entry at \<open>k\<close>, counted modulo the length of the list.
\<close>

definition paired :: "entry list \<Rightarrow> nat \<Rightarrow> row \<Rightarrow> bool" where
  "paired fl k row \<longleftrightarrow>
     map_of row ''fasta_file_name'' = Some (PStr (fst (fl ! (k mod length fl))))
     \<and> map_of row ''fasta_header_name'' = Some (PStr (snd (fl ! (k mod length fl))))"

section \<open>The even spread is a round-robin over the files\<close>

lemma map_of_dict_set: "map_of (dict_set k v ps) = (map_of ps)(k \<mapsto> v)"
  by (induction ps) auto

lemma keys_dict_set:
  "map fst (dict_set k v ps) = (if k \<in> fst ` set ps then map fst ps else map fst ps @ [k])"
  by (induction ps) auto

lemma set_keys_dict_set: "fst ` set (dict_set k v ps) = insert k (fst ` set ps)"
  by (induction ps) auto

lemma distinct_dict_set: "distinct (map fst ps) \<Longrightarrow> distinct (map fst (dict_set k v ps))"
  by (simp add: keys_dict_set)

lemma map_of_add_to_group:
  "map_of (add_to_group e G) = (map_of G)(fst e \<mapsto> grp G (fst e) @ [e])"
  by (auto simp: add_to_group_def grp_def map_of_dict_set Let_def split: option.splits)

lemma keys_add_to_group: "fst ` set (add_to_group e G) = insert (fst e) (fst ` set G)"
  by (auto simp: add_to_group_def Let_def map_of_dict_set set_keys_dict_set split: option.splits)

lemma distinct_add_to_group:
  "distinct (map fst G) \<Longrightarrow> distinct (map fst (add_to_group e G))"
  by (auto simp: add_to_group_def Let_def map_of_dict_set distinct_dict_set split: option.splits)

lemma grp_add_to_group:
  "grp (add_to_group e G) f = grp G f @ (if fst e = f then [e] else [])"
  by (simp add: grp_def map_of_add_to_group)

lemma grp_fold: "grp (fold add_to_group xs G) f = grp G f @ file_group f xs"
  by (induction xs arbitrary: G) (auto simp: grp_add_to_group file_group_def)

lemma keys_fold: "fst ` set (fold add_to_group xs G) = fst ` set G \<union> fst ` set xs"
  by (induction xs arbitrary: G) (auto simp: keys_add_to_group)

lemma distinct_fold:
  "distinct (map fst G) \<Longrightarrow> distinct (map fst (fold add_to_group xs G))"
  by (induction xs arbitrary: G) (auto simp: distinct_add_to_group)

lemma grp_Nil: "grp [] f = []"
  by (simp add: grp_def)

lemma grp_group_by_file: "grp (group_by_file xs) f = file_group f xs"
  by (simp add: group_by_file_def grp_fold grp_Nil)

lemma keys_group_by_file: "set (map fst (group_by_file xs)) = fst ` set xs"
  using keys_fold [of xs "[]"] by (simp add: group_by_file_def)

lemma distinct_group_by_file: "distinct (map fst (group_by_file xs))"
  by (simp add: group_by_file_def distinct_fold)

lemma sorted_keys: "sort (map fst (group_by_file xs)) = sort (remdups (map fst xs))"
proof (rule sorted_distinct_set_unique)
  show "distinct (sort (map fst (group_by_file xs)))"
    using distinct_group_by_file by simp
  show "set (sort (map fst (group_by_file xs))) = set (sort (remdups (map fst xs)))"
    using keys_group_by_file by simp
qed simp_all

lemma fold_max_ge: "m \<le> fold (\<lambda>p m. max (h p) m) G (m::nat)"
proof (induction G arbitrary: m)
  case (Cons p G)
  have "m \<le> max (h p) m" by simp
  also have "\<dots> \<le> fold (\<lambda>p m. max (h p) m) G (max (h p) m)" by (rule Cons.IH)
  finally show ?case by simp
qed simp

lemma fold_max_member: "p \<in> set G \<Longrightarrow> h p \<le> fold (\<lambda>p m. max (h p) m) G (m::nat)"
proof (induction G arbitrary: m)
  case (Cons q G)
  show ?case
  proof (cases "p = q")
    case True
    have "h p \<le> max (h p) m" by simp
    also have "\<dots> \<le> fold (\<lambda>p m. max (h p) m) G (max (h p) m)" by (rule fold_max_ge)
    finally show ?thesis using True by simp
  next
    case False
    with Cons show ?thesis by simp
  qed
qed simp

lemma fold_max_le:
  "m \<le> b \<Longrightarrow> (\<And>p. p \<in> set G \<Longrightarrow> h p \<le> b) \<Longrightarrow> fold (\<lambda>p m. max (h p) m) G (m::nat) \<le> b"
  by (induction G arbitrary: m) auto

lemma group_member:
  assumes "(f, g) \<in> set (group_by_file xs)"
  shows "g = file_group f xs"
proof -
  have "map_of (group_by_file xs) f = Some g"
    using assms distinct_group_by_file by simp
  then show ?thesis using grp_group_by_file [of xs f] by (simp add: grp_def)
qed

lemma length_file_group: "length (file_group f xs) \<le> length xs"
  by (simp add: file_group_def)

lemma max_entries_le: "max_entries (group_by_file xs) \<le> length xs"
  unfolding max_entries_def
proof (rule fold_max_le)
  fix p assume "p \<in> set (group_by_file xs)"
  then have "snd p = file_group (fst p) xs" using group_member [of "fst p" "snd p" xs] by simp
  then show "length (snd p) \<le> length xs" by (simp add: length_file_group)
qed simp

lemma max_entries_ge: "length (file_group f xs) \<le> max_entries (group_by_file xs)"
proof (cases "f \<in> fst ` set xs")
  case True
  then have "f \<in> set (map fst (group_by_file xs))" by (simp only: keys_group_by_file)
  then obtain g where m: "(f, g) \<in> set (group_by_file xs)" by auto
  then have "g = file_group f xs" by (rule group_member)
  with fold_max_member [OF m, of "\<lambda>p. length (snd p)" 0] show ?thesis
    by (simp add: max_entries_def)
next
  case False
  then have "file_group f xs = []" by (auto simp: file_group_def filter_empty_conv)
  then show ?thesis by simp
qed

lemma interleave_step_append:
  "interleave_step G i f acc = acc @ (if i < length (grp G f) then [grp G f ! i] else [])"
  by (simp add: interleave_step_def grp_def split: option.splits)

lemma fold_append_concat: "fold (\<lambda>x acc. acc @ r x) xs = (\<lambda>acc. acc @ concat (map r xs))"
  by (induction xs) auto

lemma interleave_rounds:
  "interleave xs =
     concat (map (\<lambda>i. concat (map (\<lambda>f. if i < length (file_group f xs)
                                        then [file_group f xs ! i] else [])
                                (sort (remdups (map fst xs)))))
       [0 ..< max_entries (group_by_file xs)])"
proof -
  have step: "interleave_step (group_by_file xs) i =
      (\<lambda>f acc. acc @ (if i < length (file_group f xs) then [file_group f xs ! i] else []))" for i
    by (intro ext) (simp add: interleave_step_append grp_group_by_file)
  show ?thesis
    by (simp add: interleave_def Let_def step fold_append_concat sorted_keys)
qed

lemma concat_extend:
  assumes "m \<le> n" "\<And>i. m \<le> i \<Longrightarrow> r i = []"
  shows "concat (map r [0 ..< n]) = concat (map r [0 ..< m])"
proof -
  have "[0 ..< m + (n - m)] = [0 ..< m] @ [m ..< m + (n - m)]" by (rule upt_add_eq_append) simp
  then have "[0 ..< n] = [0 ..< m] @ [m ..< n]" using assms(1) by simp
  moreover have "concat (map r [m ..< n]) = []" using assms(2) by simp
  ultimately show ?thesis by simp
qed

lemma interleave_round_robin: "interleave xs = round_robin xs"
proof -
  let ?r = "\<lambda>i. concat (map (\<lambda>f. if i < length (file_group f xs)
                                        then [file_group f xs ! i] else [])
                                (sort (remdups (map fst xs))))"
  have e: "?r i = []" if "max_entries (group_by_file xs) \<le> i" for i
  proof -
    have "\<not> i < length (file_group f xs)" for f
      using max_entries_ge [of f xs] that by simp
    then show ?thesis by simp
  qed
  have "concat (map ?r [0 ..< length xs]) = concat (map ?r [0 ..< max_entries (group_by_file xs)])"
    by (rule concat_extend [where r = ?r, OF max_entries_le e])
  then show ?thesis
    unfolding round_robin_def by (subst interleave_rounds) (rule sym)
qed


subsection \<open>The interleaved list is a rearrangement\<close>

lemma sum_list_swap:
  "(\<Sum>i\<leftarrow>is. \<Sum>f\<leftarrow>ks. (F i f :: 'a :: comm_monoid_add)) = (\<Sum>f\<leftarrow>ks. \<Sum>i\<leftarrow>is. F i f)"
  by (induction "is") (simp_all add: sum_list_addf)

lemma sum_list_single:
  "distinct ks \<Longrightarrow> k \<in> set ks \<Longrightarrow> (\<Sum>f\<leftarrow>ks. if k = f then a else (0 :: 'a :: comm_monoid_add)) = a"
proof (induction ks)
  case (Cons f ks)
  show ?case
  proof (cases "k = f")
    case True
    then have "k \<notin> set ks" using Cons.prems by simp
    then have "(\<Sum>f\<leftarrow>ks. if k = f then a else 0) = 0"
      by (induction ks) auto
    with True show ?thesis by simp
  next
    case False
    with Cons show ?thesis by simp
  qed
qed simp

lemma mset_file_groups:
  assumes "distinct ks" "fst ` set xs \<subseteq> set ks"
  shows "(\<Sum>f\<leftarrow>ks. mset (file_group f xs)) = mset xs"
  using assms(2)
proof (induction xs)
  case Nil
  show ?case by (simp add: file_group_def)
next
  case (Cons x xs)
  have "(\<Sum>f\<leftarrow>ks. mset (file_group f (x # xs))) =
        (\<Sum>f\<leftarrow>ks. (if fst x = f then {#x#} else {#}) + mset (file_group f xs))"
    by (rule arg_cong [where f = sum_list]) (auto simp: file_group_def)
  also have "\<dots> = (\<Sum>f\<leftarrow>ks. if fst x = f then {#x#} else {#}) + (\<Sum>f\<leftarrow>ks. mset (file_group f xs))"
    by (rule sum_list_addf)
  also have "(\<Sum>f\<leftarrow>ks. if fst x = f then {#x#} else {#}) = {#x#}"
    using assms(1) Cons.prems by (intro sum_list_single) auto
  also have "(\<Sum>f\<leftarrow>ks. mset (file_group f xs)) = mset xs"
    using Cons by simp
  finally show ?case by simp
qed

lemma concat_slots:
  assumes "length l \<le> m"
  shows "concat (map (\<lambda>i. if i < length l then [l ! i] else []) [0 ..< m]) = l"
proof -
  let ?r = "\<lambda>i. if i < length l then [l ! i] else []"
  have "concat (map ?r [0 ..< m]) = concat (map ?r [0 ..< length l])"
    by (rule concat_extend [OF assms]) simp
  also have "map ?r [0 ..< length l] = map (\<lambda>i. [l ! i]) [0 ..< length l]"
    by simp
  also have "concat (map (\<lambda>i. [l ! i]) [0 ..< length l]) = map ((!) l) [0 ..< length l]"
    by (induction "[0 ..< length l]") (simp_all add: concat_map_singleton)
  also have "\<dots> = l" by (rule map_nth)
  finally show ?thesis .
qed

lemma mset_interleave: "mset (interleave xs) = mset xs"
proof -
  let ?ks = "sort (remdups (map fst xs))"
  let ?m = "max_entries (group_by_file xs)"
  let ?F = "\<lambda>i f. mset (if i < length (file_group f xs) then [file_group f xs ! i] else [])"
  have "mset (interleave xs) = (\<Sum>i\<leftarrow>[0 ..< ?m]. \<Sum>f\<leftarrow>?ks. ?F i f)"
    by (simp add: interleave_rounds mset_concat comp_def)
  also have "\<dots> = (\<Sum>f\<leftarrow>?ks. \<Sum>i\<leftarrow>[0 ..< ?m]. ?F i f)"
    by (rule sum_list_swap)
  also have "\<dots> = (\<Sum>f\<leftarrow>?ks. mset (file_group f xs))"
  proof (rule arg_cong [where f = sum_list], rule map_cong [OF refl])
    fix f
    have "(\<Sum>i\<leftarrow>[0 ..< ?m]. ?F i f) =
          mset (concat (map (\<lambda>i. if i < length (file_group f xs) then [file_group f xs ! i] else [])
                         [0 ..< ?m]))"
      by (simp add: mset_concat comp_def)
    also have "\<dots> = mset (file_group f xs)"
      by (simp only: concat_slots [OF max_entries_ge])
    finally show "(\<Sum>i\<leftarrow>[0 ..< ?m]. ?F i f) = mset (file_group f xs)" .
  qed
  also have "\<dots> = mset xs"
    by (rule mset_file_groups) auto
  finally show ?thesis .
qed


lemma interleave_Nil_iff: "interleave fl = [] \<longleftrightarrow> fl = []"
  using mset_interleave [of fl] by (metis mset_zero_iff)

text \<open>
  Claim C10. The interleaved list holds exactly the entries of the header list, each as
  often as the header list does: spreading reorders, and neither drops, repeats nor
  alters a (file, header) pair.
\<close>

theorem interleave_is_permutation: "mset (interleave fasta_list) = mset fasta_list"
  by (rule mset_interleave)

subsection \<open>Three files with 3, 3 and 2 headers\<close>

lemma length_file_groups:
  assumes "distinct ks" "fst ` set xs \<subseteq> set ks"
  shows "length xs = (\<Sum>f\<leftarrow>ks. length (file_group f xs))"
proof -
  have "length xs = size (\<Sum>f\<leftarrow>ks. mset (file_group f xs))"
    by (simp add: mset_file_groups [OF assms])
  also have "\<dots> = (\<Sum>f\<leftarrow>ks. length (file_group f xs))"
    by (induction ks) simp_all
  finally show ?thesis .
qed

lemma upt_8: "[0 ..< 8] = [0, 1, 2, 3, 4, 5, 6, 7 :: nat]"
  by (simp add: upt_rec)

lemma round_robin_3_3_2:
  assumes ks: "sort (remdups (map fst xs)) = [f1, f2, f3]"
    and l1: "length (file_group f1 xs) = 3"
    and l2: "length (file_group f2 xs) = 3"
    and l3: "length (file_group f3 xs) = 2"
  shows "round_robin xs =
           [file_group f1 xs ! 0, file_group f2 xs ! 0, file_group f3 xs ! 0,
            file_group f1 xs ! 1, file_group f2 xs ! 1, file_group f3 xs ! 1,
            file_group f1 xs ! 2, file_group f2 xs ! 2]"
proof -
  have "distinct (sort (remdups (map fst xs)))" by simp
  moreover have "fst ` set xs \<subseteq> set (sort (remdups (map fst xs)))" by simp
  ultimately have "length xs = (\<Sum>f\<leftarrow>sort (remdups (map fst xs)). length (file_group f xs))"
    by (rule length_file_groups)
  then have len: "length xs = 8" by (simp add: ks l1 l2 l3)
  show ?thesis
    by (simp add: round_robin_def ks l1 l2 l3 len upt_8)
qed

lemma fst_file_group_nth: "i < length (file_group f xs) \<Longrightarrow> fst (file_group f xs ! i) = f"
proof -
  assume "i < length (file_group f xs)"
  then have "file_group f xs ! i \<in> set (file_group f xs)" by (rule nth_mem)
  then show ?thesis by (simp add: file_group_def)
qed

lemma generate_dummy_data_spread:
  "generate_dummy_data hst sch n xs True g = generate_dummy_data hst sch n (round_robin xs) False g"
  by (cases "xs = []") (simp_all add: generate_dummy_data_def interleave_round_robin round_robin_def)

text \<open>
  Claim C4. With spreading enabled the rows are drawn from the header list grouped by file
  name and rebuilt round-robin over the sorted file names, the \<open>i\<close>-th entry of each group
  in turn. When the three groups have sizes 3, 3 and 2, the eight entries visit the files in
  the order 1, 2, 3, 1, 2, 3, 1, 2: all three until the group of size 2 is exhausted, then
  the two that remain.
\<close>

theorem spread_is_round_robin:
  "generate_dummy_data hst sch n fasta_list True g =
     generate_dummy_data hst sch n (round_robin fasta_list) False g
   \<and> interleave fasta_list = round_robin fasta_list
   \<and> (sort (remdups (map fst fasta_list)) = [f1, f2, f3]
        \<and> length (file_group f1 fasta_list) = 3
        \<and> length (file_group f2 fasta_list) = 3
        \<and> length (file_group f3 fasta_list) = 2
      \<longrightarrow> interleave fasta_list =
            [file_group f1 fasta_list ! 0, file_group f2 fasta_list ! 0, file_group f3 fasta_list ! 0,
             file_group f1 fasta_list ! 1, file_group f2 fasta_list ! 1, file_group f3 fasta_list ! 1,
             file_group f1 fasta_list ! 2, file_group f2 fasta_list ! 2]
          \<and> map fst (interleave fasta_list) = [f1, f2, f3, f1, f2, f3, f1, f2])"
proof (intro conjI impI)
  show "generate_dummy_data hst sch n fasta_list True g =
     generate_dummy_data hst sch n (round_robin fasta_list) False g"
    by (rule generate_dummy_data_spread)
  show "interleave fasta_list = round_robin fasta_list"
    by (rule interleave_round_robin)
next
  assume a: "sort (remdups (map fst fasta_list)) = [f1, f2, f3]
        \<and> length (file_group f1 fasta_list) = 3
        \<and> length (file_group f2 fasta_list) = 3
        \<and> length (file_group f3 fasta_list) = 2"
  then show e: "interleave fasta_list =
            [file_group f1 fasta_list ! 0, file_group f2 fasta_list ! 0, file_group f3 fasta_list ! 0,
             file_group f1 fasta_list ! 1, file_group f2 fasta_list ! 1, file_group f3 fasta_list ! 1,
             file_group f1 fasta_list ! 2, file_group f2 fasta_list ! 2]"
    by (simp only: interleave_round_robin round_robin_3_3_2)
  show "map fst (interleave fasta_list) = [f1, f2, f3, f1, f2, f3, f1, f2]"
    using a by (simp add: e fst_file_group_nth)
qed

theorem spread_is_round_robin_witness:
  "sort (remdups (map fst
      [(''a'', ''1''), (''a'', ''2''), (''b'', ''3''), (''a'', ''4''),
       (''c'', ''5''), (''b'', ''6''), (''c'', ''7''), (''b'', ''8'')])) = [''a'', ''b'', ''c'']
   \<and> map fst (interleave
      [(''a'', ''1''), (''a'', ''2''), (''b'', ''3''), (''a'', ''4''),
       (''c'', ''5''), (''b'', ''6''), (''c'', ''7''), (''b'', ''8'')])
     = [''a'', ''b'', ''c'', ''a'', ''b'', ''c'', ''a'', ''b'']
   \<and> interleave
      [(''a'', ''1''), (''a'', ''2''), (''b'', ''3''), (''a'', ''4''),
       (''c'', ''5''), (''b'', ''6''), (''c'', ''7''), (''b'', ''8'')]
     = [(''a'', ''1''), (''b'', ''3''), (''c'', ''5''), (''a'', ''2''),
        (''b'', ''6''), (''c'', ''7''), (''a'', ''4''), (''b'', ''8'')]"
proof -
  let ?xs = "[(''a'', ''1''), (''a'', ''2''), (''b'', ''3''), (''a'', ''4''),
       (''c'', ''5''), (''b'', ''6''), (''c'', ''7''), (''b'', ''8'')]"
  have k: "sort (remdups (map fst ?xs)) = [''a'', ''b'', ''c'']"
    by (simp add: insort_key.simps)
  have l: "length (file_group ''a'' ?xs) = 3" "length (file_group ''b'' ?xs) = 3"
          "length (file_group ''c'' ?xs) = 2"
    by (simp_all add: file_group_def)
  from spread_is_round_robin [of _ _ _ ?xs _ "''a''" "''b''" "''c''"] k l
  have "interleave ?xs =
            [file_group ''a'' ?xs ! 0, file_group ''b'' ?xs ! 0, file_group ''c'' ?xs ! 0,
             file_group ''a'' ?xs ! 1, file_group ''b'' ?xs ! 1, file_group ''c'' ?xs ! 1,
             file_group ''a'' ?xs ! 2, file_group ''b'' ?xs ! 2]
          \<and> map fst (interleave ?xs) = [''a'', ''b'', ''c'', ''a'', ''b'', ''c'', ''a'', ''b'']"
    by blast
  then show ?thesis using k by (simp add: file_group_def)
qed

section \<open>Headers the randomizer leaves alone\<close>

lemma fst_randomize_lines_Cons:
  "fst (randomize_lines (a # lines) g) =
     (if is_header a
      then ([CHR ''>''] @ fst (generate_random_string 20 g) @ [CHR 0x0A])
             # fst (randomize_lines lines (snd (generate_random_string 20 g)))
      else a # fst (randomize_lines lines g))"
  by (simp split: prod.splits)

lemma randomize_lines_keeps:
  "line \<in> set lines \<Longrightarrow> \<not> is_header line \<Longrightarrow> line \<in> set (fst (randomize_lines lines g))"
proof (induction lines arbitrary: g)
  case (Cons a lines)
  show ?case
  proof (cases "line = a")
    case True
    with Cons.prems show ?thesis by (simp only: fst_randomize_lines_Cons) simp
  next
    case False
    with Cons.prems have "line \<in> set lines" by simp
    then have "line \<in> set (fst (randomize_lines lines g'))" for g'
      using Cons.prems(2) by (rule Cons.IH)
    then show ?thesis by (simp only: fst_randomize_lines_Cons) simp
  qed
qed simp

lemma headers_of_lines_member:
  "line \<in> set lines \<Longrightarrow> is_header (strip line) \<Longrightarrow>
     (new_name, tl (strip line)) \<in> set (headers_of_lines new_name lines)"
  by (induction lines) (auto simp: Let_def)

lemma not_space_marker: "\<not> is_space CHR ''>''"
  by (simp add: is_space_def)

lemma strip_indented_header:
  assumes "\<forall>c \<in> set ws. is_space c"
  shows "strip (ws @ CHR ''>'' # text) = CHR ''>'' # rev (dropWhile is_space (rev text))"
proof -
  have "dropWhile is_space (ws @ CHR ''>'' # text) = CHR ''>'' # text"
    using assms by (simp add: dropWhile_append not_space_marker)
  moreover have "dropWhile is_space (rev text @ [CHR ''>'']) = dropWhile is_space (rev text) @ [CHR ''>'']"
    by (simp add: dropWhile_append not_space_marker)
  ultimately show ?thesis by (simp add: strip_def)
qed

lemma indented_not_header:
  assumes "ws \<noteq> []" "\<forall>c \<in> set ws. is_space c"
  shows "\<not> is_header (ws @ CHR ''>'' # text)"
proof -
  obtain c cs where "ws = c # cs" using assms(1) by (cases ws) auto
  moreover from this have "is_space c" using assms(2) by simp
  ultimately show ?thesis using not_space_marker by (auto simp: is_header_def)
qed

lemma length_randomize_lines: "length (fst (randomize_lines lines g)) = length lines"
proof (induction lines arbitrary: g)
  case (Cons a lines)
  show ?case by (simp only: fst_randomize_lines_Cons) (simp add: Cons.IH)
qed simp

lemma randomize_lines_verbatim:
  "i < length lines \<Longrightarrow> \<not> is_header (lines ! i) \<Longrightarrow> fst (randomize_lines lines g) ! i = lines ! i"
proof (induction lines arbitrary: g i)
  case (Cons a lines)
  show ?case
  proof (cases i)
    case 0
    with Cons.prems show ?thesis by (simp only: fst_randomize_lines_Cons) simp
  next
    case (Suc j)
    with Cons.prems have "fst (randomize_lines lines g') ! j = lines ! j" for g'
      by (intro Cons.IH) simp_all
    with Suc show ?thesis by (simp only: fst_randomize_lines_Cons) simp
  qed
qed simp

lemma headers_of_lines_filter:
  "headers_of_lines new_name lines =
     map (\<lambda>line. (new_name, tl (strip line))) (filter (\<lambda>line. is_header (strip line)) lines)"
  by (induction lines) (simp_all add: Let_def)

text \<open>
  Claim C9. The randomizer keeps every line that does not begin with \<^verbatim>\<open>>\<close> as it is,
  and the extractor emits an entry for every line that begins with \<^verbatim>\<open>>\<close> once it is
  stripped. A line with whitespace before its \<^verbatim>\<open>>\<close> is therefore no header for the
  randomizer, which copies it verbatim, and is a header for the extractor.
  So the extractor emits an entry whose header text is the original text of that line
  (without trailing whitespace), whatever the random source does: not every extracted
  header is a freshly generated string.
\<close>

theorem indented_header_survives:
  assumes "line = ws @ CHR ''>'' # text" and "ws \<noteq> []" and "\<forall>c \<in> set ws. is_space c"
    and "line \<in> set lines"
  shows "length (fst (randomize_lines lines g)) = length lines
       \<and> (\<forall>i < length lines. \<not> is_header (lines ! i) \<longrightarrow>
             fst (randomize_lines lines g) ! i = lines ! i)
       \<and> headers_of_lines new_name (fst (randomize_lines lines g)) =
           map (\<lambda>l. (new_name, tl (strip l)))
             (filter (\<lambda>l. is_header (strip l)) (fst (randomize_lines lines g)))
       \<and> \<not> is_header line
       \<and> line \<in> set (fst (randomize_lines lines g))
       \<and> is_header (strip line)
       \<and> (new_name, rev (dropWhile is_space (rev text)))
            \<in> set (headers_of_lines new_name (fst (randomize_lines lines g)))"
proof -
  have n: "\<not> is_header line" using assms(1-3) by (simp add: indented_not_header)
  have s: "strip line = CHR ''>'' # rev (dropWhile is_space (rev text))"
    using assms(1,3) by (simp add: strip_indented_header)
  then have h: "is_header (strip line)" by (simp add: is_header_def)
  have k: "line \<in> set (fst (randomize_lines lines g))"
    using assms(4) n by (rule randomize_lines_keeps)
  from headers_of_lines_member [OF k h, of new_name] s
  have e: "(new_name, rev (dropWhile is_space (rev text)))
            \<in> set (headers_of_lines new_name (fst (randomize_lines lines g)))"
    by simp
  have v: "\<forall>i < length lines. \<not> is_header (lines ! i) \<longrightarrow>
             fst (randomize_lines lines g) ! i = lines ! i"
    by (simp add: randomize_lines_verbatim)
  show ?thesis
    using length_randomize_lines [of lines g] v
      headers_of_lines_filter [of new_name "fst (randomize_lines lines g)"] n k h e
    by blast
qed

theorem indented_header_survives_witness:
  "randomize_lines [[CHR '' '', CHR ''>'', CHR ''s'', CHR ''1'', CHR 0x0A], ''ACGT''] []
     = ([[CHR '' '', CHR ''>'', CHR ''s'', CHR ''1'', CHR 0x0A], ''ACGT''], [])
   \<and> (''n.fasta'', ''s1'') \<in> set (headers_of_lines ''n.fasta''
        (fst (randomize_lines [[CHR '' '', CHR ''>'', CHR ''s'', CHR ''1'', CHR 0x0A], ''ACGT''] [])))"
proof -
  let ?line = "[CHR '' '', CHR ''>'', CHR ''s'', CHR ''1'', CHR 0x0A]"
  let ?text = "[CHR ''s'', CHR ''1'', CHR 0x0A]"
  have h1: "?line = '' '' @ CHR ''>'' # ?text" by simp
  have h2: "'' '' \<noteq> []" by simp
  have h3: "\<forall>c \<in> set '' ''. is_space c" by (simp add: is_space_def)
  have h4: "?line \<in> set [?line, ''ACGT'']" by simp
  have t: "rev (dropWhile is_space (rev ?text)) = ''s1''"
    by (simp add: is_space_def)
  have "(''n.fasta'', rev (dropWhile is_space (rev ?text)))
            \<in> set (headers_of_lines ''n.fasta'' (fst (randomize_lines [?line, ''ACGT''] [])))"
    using indented_header_survives [OF h1 h2 h3 h4, of "[]" "''n.fasta''"] by blast
  then have "(''n.fasta'', ''s1'')
            \<in> set (headers_of_lines ''n.fasta'' (fst (randomize_lines [?line, ''ACGT''] [])))"
    by (simp only: t)
  moreover have "randomize_lines [?line, ''ACGT''] [] = ([?line, ''ACGT''], [])"
    by (simp add: is_header_def)
  ultimately show ?thesis by blast
qed

section \<open>The random primitives\<close>

lemma randint_range:
  "a \<le> b \<Longrightarrow> \<exists>n g'. randint a b g = Inr (n, g') \<and> a \<le> n \<and> n \<le> b"
proof -
  assume ab: "a \<le> b"
  obtain r g' where d: "draw g = (r, g')" by (cases "draw g")
  have "0 < nat (b - a + 1)" using ab by simp
  then have "r mod nat (b - a + 1) < nat (b - a + 1)" by (rule mod_less_divisor)
  then have "int (r mod nat (b - a + 1)) \<le> b - a" using ab by linarith
  then show ?thesis using ab d by (simp add: randint_def)
qed

lemma randint_empty: "b < a \<Longrightarrow> randint a b g = Inl ValueError"
  by (simp add: randint_def)

lemma randint_InrD: "randint a b g = Inr (n, g') \<Longrightarrow> a \<le> n \<and> n \<le> b"
  using randint_range [of a b g] randint_empty [of b a g] by (cases "a \<le> b") auto

lemma length_choices: "length (fst (choices pop k g)) = k"
proof (induction k arbitrary: g)
  case (Suc k)
  obtain r g1 where d: "draw g = (r, g1)" by (cases "draw g")
  obtain cs g2 where c: "choices pop k g1 = (cs, g2)" by (cases "choices pop k g1")
  have "length cs = k" using Suc.IH [of g1] c by simp
  then show ?case using d c by simp
qed simp

lemma set_choices: "pop \<noteq> [] \<Longrightarrow> set (fst (choices pop k g)) \<subseteq> set pop"
proof (induction k arbitrary: g)
  case (Suc k)
  obtain r g1 where d: "draw g = (r, g1)" by (cases "draw g")
  obtain cs g2 where c: "choices pop k g1 = (cs, g2)" by (cases "choices pop k g1")
  have "set cs \<subseteq> set pop" using Suc.IH [OF Suc.prems, of g1] c by simp
  moreover have "pop ! (r mod length pop) \<in> set pop" using Suc.prems by simp
  ultimately show ?case using d c by simp
qed simp

lemma random_string_shape:
  "generate_random_string n g = (s, g') \<Longrightarrow> length s = n \<and> set s \<subseteq> set alphabet"
proof -
  assume a: "generate_random_string n g = (s, g')"
  have "alphabet \<noteq> []" by (simp add: alphabet_def)
  then show ?thesis
    using a length_choices [of alphabet n g] set_choices [of alphabet n g]
    by (simp add: generate_random_string_def)
qed

lemma random_strings_shape:
  "random_strings n g = (ss, g') \<Longrightarrow>
     length ss = n \<and> (\<forall>v \<in> set ss. \<exists>s. v = PStr s \<and> length s = 20 \<and> set s \<subseteq> set alphabet)"
proof (induction n arbitrary: g ss g')
  case (Suc n)
  obtain s g1 where r: "generate_random_string 20 g = (s, g1)" by (cases "generate_random_string 20 g")
  obtain ts g2 where t: "random_strings n g1 = (ts, g2)" by (cases "random_strings n g1")
  from Suc.prems r t have ss: "ss = PStr s # ts" by simp
  from Suc.IH [OF t] random_string_shape [OF r] show ?case by (simp add: ss)
qed simp

lemma sample_positions_shape:
  "k \<le> length pop \<Longrightarrow>
     length (fst (sample_positions pop k g)) = k \<and> mset (fst (sample_positions pop k g)) \<subseteq># mset pop"
proof (induction k arbitrary: pop g)
  case (Suc k)
  then have ne: "pop \<noteq> []" by auto
  obtain r g1 where d: "draw g = (r, g1)" by (cases "draw g")
  let ?i = "r mod length pop"
  let ?rest = "take ?i pop @ drop (Suc ?i) pop"
  have i: "?i < length pop" using ne by simp
  obtain xs g2 where s: "sample_positions ?rest k g1 = (xs, g2)"
    by (cases "sample_positions ?rest k g1")
  have "k \<le> length ?rest" using Suc.prems i by simp
  from Suc.IH [OF this, of g1] s have ih: "length xs = k" "mset xs \<subseteq># mset ?rest" by simp_all
  have "mset pop = mset (take ?i pop @ pop ! ?i # drop (Suc ?i) pop)"
    by (rule arg_cong [OF id_take_nth_drop [OF i]])
  also have "\<dots> = add_mset (pop ! ?i) (mset ?rest)" by simp
  finally have "mset pop = add_mset (pop ! ?i) (mset ?rest)" .
  then have "mset (pop ! ?i # xs) \<subseteq># mset pop" using ih(2) by simp
  then show ?case using ne d s ih(1) by (simp add: Let_def)
qed simp

lemma distinct_iff_count: "distinct xs \<longleftrightarrow> (\<forall>a. count (mset xs) a \<le> 1)"
proof (induction xs)
  case (Cons x xs)
  show ?case
  proof
    assume d: "distinct (x # xs)"
    then have "x \<notin># mset xs" by simp
    then have z: "count (mset xs) x = 0" by (rule not_in_iff [THEN iffD1])
    from d have "distinct xs" by simp
    then have le: "\<forall>a. count (mset xs) a \<le> 1" by (rule Cons.IH [THEN iffD1])
    show "\<forall>a. count (mset (x # xs)) a \<le> 1"
    proof
      fix a show "count (mset (x # xs)) a \<le> 1"
        using z le by (cases "a = x") simp_all
    qed
  next
    assume a: "\<forall>a. count (mset (x # xs)) a \<le> 1"
    then have "count (mset (x # xs)) x \<le> 1" by blast
    then have "count (mset xs) x = 0" by simp
    then have "x \<notin># mset xs" by (rule not_in_iff [THEN iffD2])
    then have n: "x \<notin> set xs" by simp
    have "\<forall>b. count (mset xs) b \<le> 1"
    proof
      fix b
      have "count (mset xs) b \<le> count (mset (x # xs)) b" by simp
      also have "\<dots> \<le> 1" using a by blast
      finally show "count (mset xs) b \<le> 1" .
    qed
    then have "distinct xs" by (rule Cons.IH [THEN iffD2])
    with n show "distinct (x # xs)" by simp
  qed
qed simp

lemma mset_subseteq_distinct:
  assumes "mset vs \<subseteq># mset es" "distinct es"
  shows "distinct vs"
proof -
  have "count (mset vs) a \<le> 1" for a
  proof -
    have "count (mset vs) a \<le> count (mset es) a"
      using assms(1) by (rule mset_subset_eq_count)
    also have "\<dots> \<le> 1" using assms(2) by (simp only: distinct_iff_count)
    finally show ?thesis .
  qed
  then show ?thesis by (simp only: distinct_iff_count) simp
qed

section \<open>Array-typed properties\<close>

lemma array_enum_items:
  assumes t: "ptype pd = Some ''array''" and e: "enum pd = None"
    and i: "enum (case items pd of None \<Rightarrow> empty_descriptor | Some d \<Rightarrow> d) = Some es"
    and ne: "es \<noteq> []"
  shows "\<exists>vs g'. generate_dummy_value hst pd g = Inr (PList vs, g')
           \<and> 1 \<le> length vs \<and> length vs \<le> min 3 (length es)
           \<and> mset vs \<subseteq># mset es"
proof -
  have "1 \<le> min 3 (int (length es))" using ne by (cases es) simp_all
  from randint_range [OF this, of g] obtain n g1 where
    r: "randint 1 (min 3 (int (length es))) g = Inr (n, g1)"
    and n: "1 \<le> n" "n \<le> min 3 (int (length es))" by blast
  obtain vs g2 where sp: "sample_positions es (nat n) g1 = (vs, g2)"
    by (cases "sample_positions es (nat n) g1")
  have s: "sample es n g1 = Inr (vs, g2)" using n sp by (simp add: sample_def)
  have "nat n \<le> length es" using n by (simp add: nat_le_iff)
  from sample_positions_shape [OF this, of g1] sp
  have sh: "length vs = nat n" "mset vs \<subseteq># mset es" by simp_all
  have "generate_dummy_value hst pd g = Inr (PList vs, g2)"
    using t e i r s by (simp add: generate_dummy_value_def)
  moreover have "1 \<le> length vs" "length vs \<le> min 3 (length es)"
    using sh(1) n by (simp_all add: nat_le_iff)
  ultimately show ?thesis using sh(2) by blast
qed

lemma array_empty_enum_items:
  assumes t: "ptype pd = Some ''array''" and e: "enum pd = None"
    and i: "enum (case items pd of None \<Rightarrow> empty_descriptor | Some d \<Rightarrow> d) = Some []"
  shows "generate_dummy_value hst pd g = Inl ValueError"
  using t e i by (simp add: generate_dummy_value_def randint_def)

lemma array_plain_items:
  assumes t: "ptype pd = Some ''array''" and e: "enum pd = None"
    and i: "enum (case items pd of None \<Rightarrow> empty_descriptor | Some d \<Rightarrow> d) = None"
  shows "\<exists>vs g'. generate_dummy_value hst pd g = Inr (PList vs, g')
           \<and> 1 \<le> length vs \<and> length vs \<le> 3
           \<and> (\<forall>v \<in> set vs. \<exists>s. v = PStr s \<and> length s = 20 \<and> set s \<subseteq> set alphabet)"
proof -
  have "(1::int) \<le> 3" by simp
  from randint_range [OF this, of g] obtain n g1 where
    r: "randint 1 3 g = Inr (n, g1)" and n: "1 \<le> n" "n \<le> 3" by blast
  obtain ss g2 where rs: "random_strings (nat n) g1 = (ss, g2)"
    by (cases "random_strings (nat n) g1")
  from random_strings_shape [OF rs]
  have sh: "length ss = nat n"
    "\<forall>v \<in> set ss. \<exists>s. v = PStr s \<and> length s = 20 \<and> set s \<subseteq> set alphabet" by simp_all
  have "generate_dummy_value hst pd g = Inr (PList ss, g2)"
    using t e i r rs by (simp add: generate_dummy_value_def)
  moreover have "1 \<le> length ss" "length ss \<le> 3" using sh(1) n by simp_all
  ultimately show ?thesis using sh(2) by blast
qed

text \<open>
  Claim C7, as the code has it. An array-typed descriptor without an \<^verbatim>\<open>enum\<close> of its own
  yields a list. When the item descriptor declares a non-empty enum, the list has between 1
  and min(3, enum size) values taken from pairwise different positions of the enum: each
  is a member of the enum, and they are pairwise distinct when the enum's values are. An
  empty item enum raises \<^verbatim>\<open>ValueError\<close>. Without an item enum the list holds 1 to 3
  random strings of 20 characters of the alphabet.
\<close>

theorem array_values:
  assumes "ptype pd = Some ''array''" and "enum pd = None"
  shows "case enum (case items pd of None \<Rightarrow> empty_descriptor | Some d \<Rightarrow> d) of
           Some es \<Rightarrow>
             if es = [] then generate_dummy_value hst pd g = Inl ValueError
             else (\<exists>vs g'. generate_dummy_value hst pd g = Inr (PList vs, g')
                    \<and> 1 \<le> length vs \<and> length vs \<le> min 3 (length es)
                    \<and> set vs \<subseteq> set es \<and> mset vs \<subseteq># mset es
                    \<and> (distinct es \<longrightarrow> distinct vs))
         | None \<Rightarrow>
             (\<exists>vs g'. generate_dummy_value hst pd g = Inr (PList vs, g')
                \<and> 1 \<le> length vs \<and> length vs \<le> 3
                \<and> (\<forall>v \<in> set vs. \<exists>s. v = PStr s \<and> length s = 20 \<and> set s \<subseteq> set alphabet))"
proof (cases "enum (case items pd of None \<Rightarrow> empty_descriptor | Some d \<Rightarrow> d)")
  case None
  then show ?thesis using array_plain_items [OF assms None, of hst g] by simp
next
  case (Some es)
  show ?thesis
  proof (cases "es = []")
    case True
    then show ?thesis using Some array_empty_enum_items [OF assms, of hst g] by simp
  next
    case False
    from array_enum_items [OF assms Some False, of hst g] obtain vs g' where
      v: "generate_dummy_value hst pd g = Inr (PList vs, g')"
         "1 \<le> length vs" "length vs \<le> min 3 (length es)" "mset vs \<subseteq># mset es" by blast
    have "set vs \<subseteq> set es" using v(4) by (metis set_mset_mono set_mset_mset)
    moreover have "distinct es \<longrightarrow> distinct vs" using v(4) by (blast intro: mset_subseteq_distinct)
    ultimately show ?thesis using Some False v by auto
  qed
qed

theorem array_values_witness:
  "\<exists>vs g'. generate_dummy_value epoch_host
      (Descriptor (Some ''array'') None
         (Some (Descriptor (Some ''string'') (Some [PStr ''red'', PStr ''green'']) None None None None))
         None None None) [4, 1]
      = Inr (PList vs, g')
    \<and> 1 \<le> length vs \<and> length vs \<le> 2 \<and> set vs \<subseteq> {PStr ''red'', PStr ''green''} \<and> distinct vs"
  using array_values [of "Descriptor (Some ''array'') None
         (Some (Descriptor (Some ''string'') (Some [PStr ''red'', PStr ''green'']) None None None None))
         None None None" epoch_host "[4, 1]"]
  by (auto simp: numeral_2_eq_2)

text \<open>
  The claim as stated fails for an array-typed descriptor that has an \<^verbatim>\<open>enum\<close> of its
  own: the enum is consulted first, and the chosen member is returned as it is. Here the
  only member is a list of four values.
\<close>

theorem array_with_enum_counterexample:
  "generate_dummy_value epoch_host
     (Descriptor (Some ''array'')
        (Some [PList [PStr ''a'', PStr ''b'', PStr ''c'', PStr ''d'']]) None None None None) []
   = Inr (PList [PStr ''a'', PStr ''b'', PStr ''c'', PStr ''d''], [])"
  by (simp add: generate_dummy_value_def choice_def)

section \<open>Integer-typed and number-typed properties\<close>






section \<open>Keys and required fields of the rows\<close>

lemma fill_row_keys:
  "fill_row hst fl ps row idx g = Inr (row', idx', g') \<Longrightarrow>
     fst ` set row' = fst ` set row \<union> fst ` set ps \<and> (distinct (map fst row) \<longrightarrow> distinct (map fst row'))"
proof (induction ps arbitrary: row idx g)
  case Nil
  then show ?case by simp
next
  case (Cons p ps)
  obtain name pd where p: "p = (name, pd)" by (cases p)
  have step: "fst ` set row' = fst ` set (dict_set name v row) \<union> fst ` set ps
      \<and> (distinct (map fst (dict_set name v row)) \<longrightarrow> distinct (map fst row'))"
    if "fill_row hst fl ps (dict_set name v row) i h = Inr (row', idx', g')" for v i h
    using that by (rule Cons.IH)
  have fin: ?case
    if "fill_row hst fl ps (dict_set name v row) i h = Inr (row', idx', g')" for v i h
    using step [OF that] by (auto simp: p set_keys_dict_set distinct_dict_set)
  show ?case
    using Cons.prems fin
    by (auto simp: p split: if_splits prod.splits sum.splits)
qed

lemma filled_dict_set_other: "r \<noteq> k \<Longrightarrow> filled hst props (dict_set k v row) r = filled hst props row r"
  by (simp add: filled_def map_of_dict_set)

lemma filled_dict_set_generated:
  "generate_dummy_value hst (get_descriptor props k) g1 = Inr (v, g2) \<Longrightarrow>
     filled hst props (dict_set k v row) k"
  by (auto simp: filled_def map_of_dict_set)

lemma backfill_inv:
  "backfill hst props reqs row g = Inr (row', g') \<Longrightarrow>
     fst ` set row' = fst ` set row \<union> set reqs
     \<and> (distinct (map fst row) \<longrightarrow> distinct (map fst row'))
     \<and> (\<forall>r. filled hst props row r \<longrightarrow> filled hst props row' r)
     \<and> (\<forall>r \<in> set reqs. filled hst props row' r)"
proof (induction reqs arbitrary: row g)
  case Nil
  then show ?case by simp
next
  case (Cons req reqs)
  show ?case
  proof (cases "case map_of row req of None \<Rightarrow> True | Some v \<Rightarrow> \<not> truthy v")
    case True
    with Cons.prems obtain v g1 where
      gen: "generate_dummy_value hst (get_descriptor props req) g = Inr (v, g1)"
      and rest: "backfill hst props reqs (dict_set req v row) g1 = Inr (row', g')"
      by (auto split: sum.splits)
    let ?row1 = "dict_set req v row"
    from Cons.IH [OF rest] have
      k: "fst ` set row' = fst ` set ?row1 \<union> set reqs"
      and d: "distinct (map fst ?row1) \<longrightarrow> distinct (map fst row')"
      and pres: "\<forall>r. filled hst props ?row1 r \<longrightarrow> filled hst props row' r"
      and new: "\<forall>r \<in> set reqs. filled hst props row' r" by simp_all
    have here: "filled hst props ?row1 req" using gen by (rule filled_dict_set_generated)
    have "filled hst props row r \<longrightarrow> filled hst props ?row1 r" for r
      using here filled_dict_set_other [of r req hst props v row] by (cases "r = req") simp_all
    then have "\<forall>r. filled hst props row r \<longrightarrow> filled hst props row' r" using pres by blast
    moreover have "\<forall>r \<in> set (req # reqs). filled hst props row' r" using here pres new by simp
    moreover have "fst ` set row' = fst ` set row \<union> set (req # reqs)"
      using k by (simp add: set_keys_dict_set)
    moreover have "distinct (map fst row) \<longrightarrow> distinct (map fst row')"
      using d by (simp add: distinct_dict_set)
    ultimately show ?thesis by blast
  next
    case False
    then obtain v where v: "map_of row req = Some v" "truthy v" by (auto split: option.splits)
    from False Cons.prems have rest: "backfill hst props reqs row g = Inr (row', g')" by simp
    from Cons.IH [OF rest] have
      k: "fst ` set row' = fst ` set row \<union> set reqs"
      and d: "distinct (map fst row) \<longrightarrow> distinct (map fst row')"
      and pres: "\<forall>r. filled hst props row r \<longrightarrow> filled hst props row' r"
      and new: "\<forall>r \<in> set reqs. filled hst props row' r" by simp_all
    have "filled hst props row req" using v by (auto simp: filled_def)
    then have "filled hst props row' req" using pres by blast
    then have "\<forall>r \<in> set (req # reqs). filled hst props row' r" using new by simp
    moreover have "req \<in> fst ` set row" using v(1) by (metis map_of_SomeD fst_conv image_eqI)
    then have "fst ` set row' = fst ` set row \<union> set (req # reqs)" using k by auto
    ultimately show ?thesis using d pres by blast
  qed
qed

lemma rows_loop_inv:
  "rows_loop hst props reqs fl n data idx g = Inr (data', idx', g') \<Longrightarrow>
     length data' = length data + n
     \<and> (\<forall>row \<in> set data'. row \<in> set data \<or> good_row hst props reqs row)"
proof (induction n arbitrary: data idx g)
  case 0
  then show ?case by simp
next
  case (Suc n)
  from Suc.prems obtain row i1 g1 row1 g2 where
    f: "fill_row hst fl props [] idx g = Inr (row, i1, g1)"
    and b: "backfill hst props reqs row g1 = Inr (row1, g2)"
    and rest: "rows_loop hst props reqs fl n (data @ [row1]) i1 g2 = Inr (data', idx', g')"
    by (auto split: sum.splits)
  from fill_row_keys [OF f] have fk: "fst ` set row = fst ` set props" "distinct (map fst row)"
    by simp_all
  from backfill_inv [OF b] fk have "good_row hst props reqs row1"
    by (simp add: good_row_def)
  moreover from Suc.IH [OF rest] have
    "length data' = length (data @ [row1]) + n"
    "\<forall>r \<in> set data'. r \<in> set (data @ [row1]) \<or> good_row hst props reqs r" by simp_all
  ultimately show ?case by auto
qed

text \<open>
  Claim C2, as the code has it. When \<^verbatim>\<open>generate_dummy_data\<close> returns, it returns as many
  rows as requested (none for a negative count). The keys of each row are the declared
  properties together with every name of the \<^verbatim>\<open>required\<close> list, so a required name that
  is not a declared property is an extra key. Each required field holds a value that is
  non-empty or that the backfill generated from the field's descriptor; it can be empty
  only where that descriptor generates empty values.
\<close>

theorem rows_have_declared_and_required_keys:
  assumes "generate_dummy_data hst sch n fasta_list spread_evenly g = Inr (data, g')"
    and "props = (case properties sch of None \<Rightarrow> [] | Some p \<Rightarrow> p)"
    and "reqs = (case required sch of None \<Rightarrow> [] | Some r \<Rightarrow> r)"
  shows "length data = nat n
       \<and> (\<forall>row \<in> set data.
            fst ` set row = fst ` set props \<union> set reqs
            \<and> distinct (map fst row)
            \<and> (\<forall>r \<in> set reqs. \<exists>v. map_of row r = Some v
                  \<and> (truthy v
                      \<or> (\<exists>g1 g2. generate_dummy_value hst (get_descriptor props r) g1 = Inr (v, g2)))))"
proof -
  let ?fl = "if spread_evenly \<and> fasta_list \<noteq> [] then interleave fasta_list else fasta_list"
  from assms obtain idx where
    "rows_loop hst props reqs ?fl (nat n) [] 0 g = Inr (data, idx, g')"
    by (auto simp: generate_dummy_data_def Let_def split: sum.splits)
  from rows_loop_inv [OF this] have
    "length data = nat n" "\<forall>row \<in> set data. good_row hst props reqs row" by simp_all
  then show ?thesis unfolding good_row_def filled_def by blast
qed

theorem rows_have_declared_and_required_keys_witness:
  "generate_dummy_data epoch_host
     \<lparr>properties = Some [(''name'', Descriptor (Some ''string'') None None None None None)],
      required = Some [''name'', ''extra'']\<rparr> 2 [] False [1, 2]
   = Inr ([[(''name'', PStr ''bcaaaaaaaaaaaaaaaaaa''), (''extra'', PStr ''aaaaaaaaaaaaaaaaaaaa'')],
           [(''name'', PStr ''aaaaaaaaaaaaaaaaaaaa''), (''extra'', PStr ''aaaaaaaaaaaaaaaaaaaa'')]], [])
   \<and> length [[(''name'', PStr ''bcaaaaaaaaaaaaaaaaaa''), (''extra'', PStr ''aaaaaaaaaaaaaaaaaaaa'')],
           [(''name'', PStr ''aaaaaaaaaaaaaaaaaaaa''), (''extra'', PStr ''aaaaaaaaaaaaaaaaaaaa'')]] = nat 2
   \<and> fst ` set [(''name'', PStr ''bcaaaaaaaaaaaaaaaaaa''), (''extra'', PStr ''aaaaaaaaaaaaaaaaaaaa'')]
       = {''name'', ''extra''}
   \<and> fst ` set [(''name'', PStr ''aaaaaaaaaaaaaaaaaaaa''), (''extra'', PStr ''aaaaaaaaaaaaaaaaaaaa'')]
       = {''name'', ''extra''}"
proof -
  let ?sch = "\<lparr>properties = Some [(''name'', Descriptor (Some ''string'') None None None None None)],
      required = Some [''name'', ''extra'']\<rparr>"
  let ?r1 = "[(''name'', PStr ''bcaaaaaaaaaaaaaaaaaa''), (''extra'', PStr ''aaaaaaaaaaaaaaaaaaaa'')]"
  let ?r2 = "[(''name'', PStr ''aaaaaaaaaaaaaaaaaaaa''), (''extra'', PStr ''aaaaaaaaaaaaaaaaaaaa'')]"
  have e: "generate_dummy_data epoch_host ?sch 2 [] False [1, 2] = Inr ([?r1, ?r2], [])"
    by code_simp
  have p: "[(''name'', Descriptor (Some ''string'') None None None None None)]
             = (case properties ?sch of None \<Rightarrow> [] | Some p \<Rightarrow> p)" by simp
  have q: "[''name'', ''extra''] = (case required ?sch of None \<Rightarrow> [] | Some r \<Rightarrow> r)" by simp
  from rows_have_declared_and_required_keys [OF e p q]
  have l: "length [?r1, ?r2] = nat 2"
    and k: "\<forall>row \<in> set [?r1, ?r2]. fst ` set row =
          fst ` set [(''name'', Descriptor (Some ''string'') None None None None None)]
          \<union> set [''name'', ''extra'']"
    by blast+
  from k have "fst ` set ?r1 = {''name'', ''extra''}" "fst ` set ?r2 = {''name'', ''extra''}"
    by simp_all
  with e l show ?thesis by blast
qed

text \<open>
  The claim as stated fails on both counts at a schema that declares one property with the
  enum of the empty string and requires it together with an undeclared name: the row has
  the undeclared key, and the required declared field is empty.
\<close>

theorem required_adds_key_counterexample:
  "generate_dummy_data epoch_host
     \<lparr>properties = Some [(''a'', Descriptor (Some ''string'') (Some [PStr []]) None None None None)],
      required = Some [''a'', ''b'']\<rparr> 1 [] False []
   = Inr ([[(''a'', PStr []), (''b'', PStr ''aaaaaaaaaaaaaaaaaaaa'')]], [])"
  by code_simp

section \<open>The cursor over the header list\<close>

lemma fill_row_append_Inr:
  "fill_row hst fl ps row idx g = Inr (row1, i1, g1) \<Longrightarrow>
     fill_row hst fl (ps @ qs) row idx g = fill_row hst fl qs row1 i1 g1"
proof (induction ps arbitrary: row idx g)
  case Nil
  then show ?case by simp
next
  case (Cons p ps)
  obtain name pd where p: "p = (name, pd)" by (cases p)
  have step: "fill_row hst fl (ps @ qs) r i h = fill_row hst fl qs row1 i1 g1"
    if "fill_row hst fl ps r i h = Inr (row1, i1, g1)" for r i h
    using that by (rule Cons.IH)
  from Cons.prems step show ?case
    by (auto simp: p split: if_splits prod.splits sum.splits)
qed

lemma fill_row_append_Inl:
  "fill_row hst fl ps row idx g = Inl e \<Longrightarrow> fill_row hst fl (ps @ qs) row idx g = Inl e"
proof (induction ps arbitrary: row idx g)
  case Nil
  then show ?case by simp
next
  case (Cons p ps)
  obtain name pd where p: "p = (name, pd)" by (cases p)
  have step: "fill_row hst fl (ps @ qs) r i h = Inl e"
    if "fill_row hst fl ps r i h = Inl e" for r i h
    using that by (rule Cons.IH)
  from Cons.prems step show ?case
    by (auto simp: p split: if_splits prod.splits sum.splits)
qed

lemma fill_row_append_split:
  assumes "fill_row hst fl (ps @ qs) row idx g = Inr (row', idx', g')"
  obtains row1 i1 g1 where "fill_row hst fl ps row idx g = Inr (row1, i1, g1)"
    and "fill_row hst fl qs row1 i1 g1 = Inr (row', idx', g')"
proof (cases "fill_row hst fl ps row idx g")
  case (Inl e)
  from fill_row_append_Inl [OF this, of qs] assms show ?thesis by simp
next
  case (Inr t)
  obtain row1 i1 g1 where t: "t = (row1, i1, g1)" by (cases t)
  from fill_row_append_Inr [OF Inr [unfolded t], of qs] assms
  have "fill_row hst fl qs row1 i1 g1 = Inr (row', idx', g')" by simp
  with Inr t that show ?thesis by blast
qed

lemma fill_row_plain:
  "fill_row hst fl ps row idx g = Inr (row', idx', g') \<Longrightarrow> plain ps \<Longrightarrow>
     idx' = idx \<and> (\<forall>k. k \<notin> fst ` set ps \<longrightarrow> map_of row' k = map_of row k)"
proof (induction ps arbitrary: row idx g)
  case Nil
  then show ?case by simp
next
  case (Cons p ps)
  obtain name pd where p: "p = (name, pd)" by (cases p)
  from Cons.prems(2) have n: "name \<noteq> ''fasta_file_name''" "name \<noteq> ''fasta_header_name''"
    and pl: "plain ps" by (auto simp: plain_def p)
  from Cons.prems(1) n obtain v g1 where
    gen: "generate_dummy_value hst pd g = Inr (v, g1)"
    and rest: "fill_row hst fl ps (dict_set name v row) idx g1 = Inr (row', idx', g')"
    by (auto simp: p split: sum.splits)
  from Cons.IH [OF rest pl] have
    "idx' = idx" "\<forall>k. k \<notin> fst ` set ps \<longrightarrow> map_of row' k = map_of (dict_set name v row) k"
    by simp_all
  then show ?case by (simp add: p map_of_dict_set)
qed

lemma fill_row_file_then_header:
  assumes run: "fill_row hst fl (pre @ (''fasta_file_name'', d1) # mid @ (''fasta_header_name'', d2) # post)
                  row idx g = Inr (row', idx', g')"
    and pl: "plain pre" "plain mid" "plain post" and ne: "fl \<noteq> []"
  shows "idx' = idx + 1
       \<and> map_of row' ''fasta_file_name'' = Some (PStr (fst (fl ! (idx mod length fl))))
       \<and> map_of row' ''fasta_header_name'' = Some (PStr (snd (fl ! (idx mod length fl))))"
proof -
  let ?e = "fl ! (idx mod length fl)"
  from run obtain r1 i1 g1 where
    a: "fill_row hst fl pre row idx g = Inr (r1, i1, g1)"
    and b: "fill_row hst fl ((''fasta_file_name'', d1) # mid @ (''fasta_header_name'', d2) # post)
              r1 i1 g1 = Inr (row', idx', g')"
    by (rule fill_row_append_split)
  from fill_row_plain [OF a pl(1)] have i1: "i1 = idx" by simp
  let ?r2 = "dict_set ''fasta_file_name'' (PStr (fst ?e)) r1"
  from b ne i1 have
    c: "fill_row hst fl (mid @ (''fasta_header_name'', d2) # post) ?r2 idx g1 = Inr (row', idx', g')"
    by simp
  then obtain r3 i3 g3 where
    d: "fill_row hst fl mid ?r2 idx g1 = Inr (r3, i3, g3)"
    and e: "fill_row hst fl ((''fasta_header_name'', d2) # post) r3 i3 g3 = Inr (row', idx', g')"
    by (rule fill_row_append_split)
  from fill_row_plain [OF d pl(2)] pl(2) have i3: "i3 = idx"
    and f3: "map_of r3 ''fasta_file_name'' = Some (PStr (fst ?e))"
    by (simp_all add: plain_def map_of_dict_set)
  let ?r4 = "dict_set ''fasta_header_name'' (PStr (snd ?e)) r3"
  from e ne i3 have
    f: "fill_row hst fl post ?r4 (idx + 1) g3 = Inr (row', idx', g')" by simp
  from fill_row_plain [OF f pl(3)] pl(3) have "idx' = idx + 1"
    and "map_of row' ''fasta_file_name'' = map_of ?r4 ''fasta_file_name''"
    and "map_of row' ''fasta_header_name'' = map_of ?r4 ''fasta_header_name''"
    by (simp_all add: plain_def)
  then show ?thesis using f3 by (simp add: map_of_dict_set)
qed

lemma backfill_keeps_truthy:
  "backfill hst props reqs row g = Inr (row', g') \<Longrightarrow> map_of row k = Some v \<Longrightarrow> truthy v \<Longrightarrow>
     map_of row' k = Some v"
proof (induction reqs arbitrary: row g)
  case Nil
  then show ?case by simp
next
  case (Cons req reqs)
  show ?case
  proof (cases "case map_of row req of None \<Rightarrow> True | Some v \<Rightarrow> \<not> truthy v")
    case True
    with Cons.prems(2,3) have ne: "req \<noteq> k" by auto
    from True Cons.prems(1) obtain w g1 where
      rest: "backfill hst props reqs (dict_set req w row) g1 = Inr (row', g')"
      by (auto split: sum.splits)
    have "map_of (dict_set req w row) k = Some v"
      using Cons.prems(2) ne by (simp add: map_of_dict_set)
    with rest show ?thesis using Cons.prems(3) by (rule Cons.IH)
  next
    case False
    with Cons.prems(1) have "backfill hst props reqs row g = Inr (row', g')" by simp
    then show ?thesis using Cons.prems(2,3) by (rule Cons.IH)
  qed
qed

lemma rows_loop_paired:
  assumes props: "props = pre @ (''fasta_file_name'', d1) # mid @ (''fasta_header_name'', d2) # post"
    and pl: "plain pre" "plain mid" "plain post" and ne: "fl \<noteq> []"
    and full: "\<forall>e \<in> set fl. fst e \<noteq> [] \<and> snd e \<noteq> []"
  shows "rows_loop hst props reqs fl n data idx g = Inr (data', idx', g') \<Longrightarrow>
     idx' = idx + n \<and> length data' = length data + n
     \<and> (\<forall>j < length data. data' ! j = data ! j)
     \<and> (\<forall>j < n. paired fl (idx + j) (data' ! (length data + j)))"
proof (induction n arbitrary: data idx g)
  case 0
  then show ?case by simp
next
  case (Suc n)
  from Suc.prems obtain row i1 g1 row1 g2 where
    f: "fill_row hst fl props [] idx g = Inr (row, i1, g1)"
    and b: "backfill hst props reqs row g1 = Inr (row1, g2)"
    and rest: "rows_loop hst props reqs fl n (data @ [row1]) i1 g2 = Inr (data', idx', g')"
    by (auto split: sum.splits)
  let ?e = "fl ! (idx mod length fl)"
  from fill_row_file_then_header [OF f [unfolded props] pl ne] have
    i1: "i1 = idx + 1"
    and m: "map_of row ''fasta_file_name'' = Some (PStr (fst ?e))"
           "map_of row ''fasta_header_name'' = Some (PStr (snd ?e))"
    by simp_all
  have "?e \<in> set fl" using ne by simp
  then have t: "truthy (PStr (fst ?e))" "truthy (PStr (snd ?e))" using full by simp_all
  have p1: "paired fl idx row1"
    using backfill_keeps_truthy [OF b m(1) t(1)] backfill_keeps_truthy [OF b m(2) t(2)]
    by (simp add: paired_def)
  from Suc.IH [OF rest] have ih:
    "idx' = i1 + n" "length data' = length (data @ [row1]) + n"
    "\<forall>j < length (data @ [row1]). data' ! j = (data @ [row1]) ! j"
    "\<forall>j < n. paired fl (i1 + j) (data' ! (length (data @ [row1]) + j))"
    by simp_all
  have old: "\<forall>j < length data. data' ! j = data ! j"
  proof (intro allI impI)
    fix j assume j: "j < length data"
    then have "data' ! j = (data @ [row1]) ! j" using ih(3) by simp
    then show "data' ! j = data ! j" using j by (simp add: nth_append)
  qed
  have first: "data' ! length data = row1"
  proof -
    have "data' ! length data = (data @ [row1]) ! length data" using ih(3) by simp
    then show ?thesis by simp
  qed
  have new: "\<forall>j < Suc n. paired fl (idx + j) (data' ! (length data + j))"
  proof (intro allI impI)
    fix j assume j: "j < Suc n"
    show "paired fl (idx + j) (data' ! (length data + j))"
    proof (cases j)
      case 0
      then show ?thesis using p1 first by simp
    next
      case (Suc k)
      with j have "k < n" by simp
      with ih(4) have "paired fl (i1 + k) (data' ! (length (data @ [row1]) + k))" by blast
      then show ?thesis using Suc i1 by simp
    qed
  qed
  show ?case using ih(1,2) i1 old new by simp
qed

text \<open>
  When \<^verbatim>\<open>fasta_file_name\<close> is declared before \<^verbatim>\<open>fasta_header_name\<close>, the cursor does
  what is expected of it: row \<open>k\<close> holds the two components of entry \<open>k\<close> of the list,
  counted modulo its length, provided no entry has an empty component that the backfill
  would replace.
\<close>

lemma file_declared_first_pairs_entries:
  assumes "generate_dummy_data hst sch n fasta_list spread_evenly g = Inr (data, g')"
    and "properties sch =
           Some (pre @ (''fasta_file_name'', d1) # mid @ (''fasta_header_name'', d2) # post)"
    and "plain pre" "plain mid" "plain post"
    and "fasta_list \<noteq> []" and "\<forall>e \<in> set fasta_list. fst e \<noteq> [] \<and> snd e \<noteq> []"
    and "fl = (if spread_evenly then interleave fasta_list else fasta_list)"
    and "k < length data"
  shows "map_of (data ! k) ''fasta_file_name'' = Some (PStr (fst (fl ! (k mod length fl))))
       \<and> map_of (data ! k) ''fasta_header_name'' = Some (PStr (snd (fl ! (k mod length fl))))"
proof -
  let ?props = "pre @ (''fasta_file_name'', d1) # mid @ (''fasta_header_name'', d2) # post"
  let ?reqs = "case required sch of None \<Rightarrow> [] | Some r \<Rightarrow> r"
  have s: "set (interleave fasta_list) = set fasta_list"
    using mset_interleave [of fasta_list] by (rule mset_eq_setD)
  have ne: "fl \<noteq> []" using assms(6,8) by (simp add: interleave_Nil_iff)
  have full: "\<forall>e \<in> set fl. fst e \<noteq> [] \<and> snd e \<noteq> []" using assms(7,8) s by simp
  from assms(1,2,6,8) obtain idx where
    run: "rows_loop hst ?props ?reqs fl (nat n) [] 0 g = Inr (data, idx, g')"
    by (auto simp: generate_dummy_data_def Let_def split: sum.splits if_splits)
  from rows_loop_paired [OF refl assms(3,4,5) ne full run] have
    "length data = nat n" "\<forall>j < nat n. paired fl (0 + j) (data ! (length ([] :: row list) + j))"
    by simp_all
  with assms(9) have "paired fl k (data ! k)" by simp
  then show ?thesis by (simp add: paired_def)
qed

text \<open>
  Claim C3 at a schema that declares \<^verbatim>\<open>fasta_header_name\<close> before
  \<^verbatim>\<open>fasta_file_name\<close>. The cursor moves in the header branch, so the file name of the
  same row is read from the next entry: the row pairs the header of the first entry with
  the file of the second.
\<close>

theorem header_declared_first_mixes_entries:
  "generate_dummy_data hst
     \<lparr>properties = Some [(''fasta_header_name'', empty_descriptor),
                          (''fasta_file_name'', empty_descriptor)],
      required = None\<rparr>
     1 [(''a.fasta'', ''h1''), (''b.fasta'', ''h2'')] True g
   = Inr ([[(''fasta_header_name'', PStr ''h1''), (''fasta_file_name'', PStr ''b.fasta'')]], g)"
proof -
  have i: "interleave [(''a.fasta'', ''h1''), (''b.fasta'', ''h2'')]
             = [(''a.fasta'', ''h1''), (''b.fasta'', ''h2'')]"
    by code_simp
  show ?thesis
    by (simp add: generate_dummy_data_def i)
qed

section \<open>The files of the archive\<close>

lemma headers_of_lines_fst: "e \<in> set (headers_of_lines new_name lines) \<Longrightarrow> fst e = new_name"
  by (induction lines) (auto simp: Let_def split: if_splits)

lemma extract_headers_present:
  "e \<in> set (extract_headers_from_temp_dir temp_dir ms) \<Longrightarrow>
     map_of temp_dir (fst e) \<noteq> None \<and> fst e \<in> snd ` set ms"
proof (induction ms)
  case (Cons m ms)
  obtain original_name new_name where m: "m = (original_name, new_name)" by (cases m)
  show ?case
  proof (cases "e \<in> set (extract_headers_from_temp_dir temp_dir ms)")
    case True
    with Cons.IH show ?thesis by auto
  next
    case False
    show ?thesis
    proof (cases "map_of temp_dir new_name")
      case None
      with Cons.prems False show ?thesis by (simp add: m)
    next
      case (Some lines)
      with Cons.prems False have "e \<in> set (headers_of_lines new_name lines)" by (simp add: m)
      then have "fst e = new_name" by (rule headers_of_lines_fst)
      with Some show ?thesis by (simp add: m)
    qed
  qed
qed simp

lemma set_slice_to: "set (slice_to xs n) \<subseteq> set xs"
  by (auto simp: slice_to_def dest: in_set_takeD)

lemma set_select_files: "set (select_files sp full) \<subseteq> fst ` set full"
proof -
  have "set (select_files sp full) \<subseteq> set (sort (remdups (map fst full)))"
    unfolding select_files_def Let_def by (rule set_slice_to)
  then show ?thesis by simp
qed

lemma sequence_names_archive:
  assumes "\<forall>f \<in> set sel. map_of temp_dir f \<noteq> None"
  shows "sequence_names ((name, Table data) #
           concat (map (\<lambda>fasta_file. (case map_of temp_dir fasta_file of
                                          None \<Rightarrow> []
                                        | Some lines \<Rightarrow> [(fasta_file, Sequence lines)])) sel))
         = sel"
proof -
  have "sequence_names (concat (map (\<lambda>fasta_file. (case map_of temp_dir fasta_file of
                                          None \<Rightarrow> []
                                        | Some lines \<Rightarrow> [(fasta_file, Sequence lines)])) sel)) = sel"
    using assms by (induction sel) (auto simp: sequence_names_def)
  then show ?thesis by (simp add: sequence_names_def)
qed

lemma main_archive:
  assumes m: "main hst flt a source_dir g = (res, w)" and z: "output_zip w = Some zf"
    and c: "create_randomized_fasta_files source_dir g = (Some temp_dir, file_mapping, g1)"
  shows "\<exists>data g2.
           generate_dummy_data hst (schema_arg a) (num_rows a)
             (filter (\<lambda>entry. fst entry \<in> set (select_files (spread a)
                        (extract_headers_from_temp_dir temp_dir file_mapping)))
                (extract_headers_from_temp_dir temp_dir file_mapping)) True g1 = Inr (data, g2)
         \<and> data \<noteq> []
         \<and> zf = (tsv_name a, Table data) #
             concat (map (\<lambda>fasta_file. (case map_of temp_dir fasta_file of
                                          None \<Rightarrow> []
                                        | Some lines \<Rightarrow> [(fasta_file, Sequence lines)]))
                      (select_files (spread a) (extract_headers_from_temp_dir temp_dir file_mapping)))"
  using m z c
  by (auto simp: main_def main_body_def Let_def split: if_splits sum.splits prod.splits)

lemma refers_to_dict_set_other:
  "name \<noteq> ''fasta_file_name'' \<Longrightarrow> refers_to fl (dict_set name v row) = refers_to fl row"
  by (simp add: refers_to_def map_of_dict_set)

lemma refers_to_dict_set_file:
  "fl \<noteq> [] \<Longrightarrow>
     refers_to fl (dict_set ''fasta_file_name'' (PStr (fst (fl ! (i mod length fl)))) row)"
proof -
  assume "fl \<noteq> []"
  then have "fl ! (i mod length fl) \<in> set fl" by simp
  then show ?thesis unfolding refers_to_def map_of_dict_set by auto
qed

lemma fill_row_refers:
  "fill_row hst fl ps row idx g = Inr (row', idx', g') \<Longrightarrow> fl \<noteq> [] \<Longrightarrow>
     refers_to fl row \<or> ''fasta_file_name'' \<in> fst ` set ps \<Longrightarrow> refers_to fl row'"
proof (induction ps arbitrary: row idx g)
  case Nil
  then show ?case by simp
next
  case (Cons p ps)
  obtain name pd where p: "p = (name, pd)" by (cases p)
  have fin: "refers_to fl row'"
    if "fill_row hst fl ps row1 i h = Inr (row', idx', g')"
      "refers_to fl row1 \<or> ''fasta_file_name'' \<in> fst ` set ps" for row1 i h
    using that(1) Cons.prems(2) that(2) by (rule Cons.IH)
  show ?case
  proof (cases "name = ''fasta_file_name''")
    case True
    from Cons.prems(1,2) have
      "fill_row hst fl ps (dict_set ''fasta_file_name''
          (PStr (fst (fl ! (idx mod length fl)))) row) idx g = Inr (row', idx', g')"
      by (simp add: p True)
    moreover have "refers_to fl (dict_set ''fasta_file_name''
          (PStr (fst (fl ! (idx mod length fl)))) row)"
      using Cons.prems(2) by (rule refers_to_dict_set_file)
    ultimately show ?thesis using fin by blast
  next
    case False
    from Cons.prems(3) False have c: "refers_to fl row \<or> ''fasta_file_name'' \<in> fst ` set ps"
      by (auto simp: p)
    from Cons.prems(1) False obtain v i h where
      "fill_row hst fl ps (dict_set name v row) i h = Inr (row', idx', g')"
      by (auto simp: p split: if_splits prod.splits sum.splits)
    moreover have "refers_to fl (dict_set name v row) \<or> ''fasta_file_name'' \<in> fst ` set ps"
      using c False by (simp add: refers_to_dict_set_other)
    ultimately show ?thesis using fin by blast
  qed
qed

lemma backfill_refers:
  "backfill hst props reqs row g = Inr (row', g') \<Longrightarrow> \<forall>e \<in> set fl. fst e \<noteq> [] \<Longrightarrow>
     refers_to fl row \<Longrightarrow> refers_to fl row'"
proof (induction reqs arbitrary: row g)
  case Nil
  then show ?case by simp
next
  case (Cons req reqs)
  show ?case
  proof (cases "case map_of row req of None \<Rightarrow> True | Some v \<Rightarrow> \<not> truthy v")
    case True
    from Cons.prems(2,3) obtain f where
      "map_of row ''fasta_file_name'' = Some (PStr f)" "f \<noteq> []"
      by (auto simp: refers_to_def)
    with True have ne: "req \<noteq> ''fasta_file_name''" by auto
    from True Cons.prems(1) obtain v g1 where
      "backfill hst props reqs (dict_set req v row) g1 = Inr (row', g')"
      by (auto split: sum.splits)
    moreover have "refers_to fl (dict_set req v row)"
      using Cons.prems(3) ne by (simp add: refers_to_dict_set_other)
    ultimately show ?thesis using Cons.IH Cons.prems(2) by blast
  next
    case False
    with Cons.prems(1) have "backfill hst props reqs row g = Inr (row', g')" by simp
    then show ?thesis using Cons.prems(2,3) by (rule Cons.IH)
  qed
qed

lemma rows_loop_refers:
  "rows_loop hst props reqs fl n data idx g = Inr (data', idx', g') \<Longrightarrow>
     fl \<noteq> [] \<Longrightarrow> \<forall>e \<in> set fl. fst e \<noteq> [] \<Longrightarrow> ''fasta_file_name'' \<in> fst ` set props \<Longrightarrow>
     \<forall>row \<in> set data'. row \<in> set data \<or> refers_to fl row"
proof (induction n arbitrary: data idx g)
  case 0
  then show ?case by simp
next
  case (Suc n)
  from Suc.prems(1) obtain row i1 g1 row1 g2 where
    f: "fill_row hst fl props [] idx g = Inr (row, i1, g1)"
    and b: "backfill hst props reqs row g1 = Inr (row1, g2)"
    and rest: "rows_loop hst props reqs fl n (data @ [row1]) i1 g2 = Inr (data', idx', g')"
    by (auto split: sum.splits)
  have "refers_to fl row"
    by (rule fill_row_refers [OF f Suc.prems(2)]) (simp add: Suc.prems(4))
  then have r1: "refers_to fl row1"
    by (rule backfill_refers [OF b Suc.prems(3)])
  have ih: "\<forall>r \<in> set data'. r \<in> set (data @ [row1]) \<or> refers_to fl r"
    by (rule Suc.IH [OF rest Suc.prems(2,3,4)])
  show ?case
  proof
    fix r assume "r \<in> set data'"
    with ih have "r \<in> set (data @ [row1]) \<or> refers_to fl r" by blast
    then show "r \<in> set data \<or> refers_to fl r" using r1 by auto
  qed
qed

lemma generate_dummy_data_refers:
  assumes "generate_dummy_data hst sch n fl True g = Inr (data, g')"
    and "fl \<noteq> []" and "\<forall>e \<in> set fl. fst e \<noteq> []"
    and "properties sch = Some props" and "''fasta_file_name'' \<in> fst ` set props"
  shows "\<forall>row \<in> set data. refers_to fl row"
proof -
  have s: "set (interleave fl) = set fl" using mset_interleave [of fl] by (rule mset_eq_setD)
  from assms(1,2,4) obtain idx where
    "rows_loop hst props (case required sch of None \<Rightarrow> [] | Some r \<Rightarrow> r)
       (interleave fl) (nat n) [] 0 g = Inr (data, idx, g')"
    by (auto simp: generate_dummy_data_def Let_def split: sum.splits)
  from rows_loop_refers [OF this] assms(2,3,5) s
  have "\<forall>row \<in> set data. refers_to (interleave fl) row"
    by (simp add: interleave_Nil_iff)
  then show ?thesis by (simp add: refers_to_def s)
qed

lemma random_filename_not_empty:
  "generate_random_filename ''.fasta'' g = (n, g') \<Longrightarrow> n \<noteq> []"
  by (auto simp: generate_random_filename_def split: prod.splits)

lemma process_files_names:
  "process_files fs temp_dir file_mapping g = (temp_dir', file_mapping', g') \<Longrightarrow>
     \<forall>n \<in> snd ` set file_mapping. n \<noteq> [] \<Longrightarrow> \<forall>n \<in> snd ` set file_mapping'. n \<noteq> []"
proof (induction fs arbitrary: temp_dir file_mapping g)
  case Nil
  then show ?case by simp
next
  case (Cons f fs)
  obtain original_filename content where f: "f = (original_filename, content)" by (cases f)
  obtain new_filename g1 where n: "generate_random_filename ''.fasta'' g = (new_filename, g1)"
    by (cases "generate_random_filename ''.fasta'' g")
  then have ne: "new_filename \<noteq> []" by (rule random_filename_not_empty)
  from Cons.prems(1) obtain t h where
    "process_files fs t (file_mapping @ [(original_filename, new_filename)]) h
       = (temp_dir', file_mapping', g')"
    by (auto simp: f n Let_def split: option.splits prod.splits)
  moreover have "\<forall>n \<in> snd ` set (file_mapping @ [(original_filename, new_filename)]). n \<noteq> []"
    using Cons.prems(2) ne by auto
  ultimately show ?case by (rule Cons.IH)
qed

lemma created_names_not_empty:
  assumes "create_randomized_fasta_files source_dir g = (Some temp_dir, file_mapping, g1)"
  shows "\<forall>n \<in> snd ` set file_mapping. n \<noteq> []"
proof -
  from assms obtain fs where
    "process_files fs [] [] g = (temp_dir, file_mapping, g1)"
    by (auto simp: create_randomized_fasta_files_def Let_def split: if_splits prod.splits)
  from process_files_names [OF this] show ?thesis by simp
qed

lemma select_files_None: "select_files None full = sort (remdups (map fst full))"
  by (simp add: select_files_def slice_to_def)

lemma select_files_Some:
  "0 \<le> s \<Longrightarrow> select_files (Some s) full = take (nat s) (sort (remdups (map fst full)))"
  by (auto simp: select_files_def slice_to_def Let_def min_def)

text \<open>
  Claim C1, as the code has it. In every run that produces an archive, the sequence files
  of the archive are the selected files: the distinct randomized file names that have at
  least one extracted header, in sorted order, cut to the spread count, and all of them
  when no spread is given. This holds whether or not a row refers to them. In the other
  direction, when the schema declares \<^verbatim>\<open>fasta_file_name\<close> and some file is selected, the
  file name of every row of the table is one of the archive's sequence files.
\<close>

theorem archive_holds_selected_files:
  assumes "main hst flt a source_dir g = (res, w)" and "output_zip w = Some zf"
    and "create_randomized_fasta_files source_dir g = (Some temp_dir, file_mapping, g1)"
    and "full = extract_headers_from_temp_dir temp_dir file_mapping"
  shows "sequence_names zf = select_files (spread a) full
       \<and> (spread a = None \<longrightarrow> sequence_names zf = sort (remdups (map fst full)))
       \<and> (\<forall>s. spread a = Some s \<and> 0 \<le> s \<longrightarrow>
             sequence_names zf = take (nat s) (sort (remdups (map fst full))))
       \<and> (\<forall>props. properties (schema_arg a) = Some props
               \<and> ''fasta_file_name'' \<in> fst ` set props \<and> sequence_names zf \<noteq> [] \<longrightarrow>
             (\<forall>name data. (name, Table data) \<in> set zf \<longrightarrow>
                (\<forall>row \<in> set data. \<exists>f \<in> set (sequence_names zf).
                    map_of row ''fasta_file_name'' = Some (PStr f))))"
proof -
  let ?sel = "select_files (spread a) full"
  let ?fl = "filter (\<lambda>entry. fst entry \<in> set ?sel) full"
  let ?seqs = "concat (map (\<lambda>fasta_file. (case map_of temp_dir fasta_file of
                                          None \<Rightarrow> []
                                        | Some lines \<Rightarrow> [(fasta_file, Sequence lines)])) ?sel)"
  from main_archive [OF assms(1,2,3)] assms(4) obtain data g2 where
    gen: "generate_dummy_data hst (schema_arg a) (num_rows a) ?fl True g1 = Inr (data, g2)"
    and zf: "zf = (tsv_name a, Table data) # ?seqs"
    by auto
  have present: "\<forall>f \<in> set ?sel. map_of temp_dir f \<noteq> None"
  proof
    fix f assume "f \<in> set ?sel"
    then have "f \<in> fst ` set full" using set_select_files by blast
    then obtain e where "e \<in> set full" "fst e = f" by auto
    then show "map_of temp_dir f \<noteq> None"
      using extract_headers_present [of e temp_dir file_mapping] assms(4) by auto
  qed
  have names: "sequence_names zf = ?sel"
    unfolding zf using present by (rule sequence_names_archive)
  have tables: "d = data" if "(name, Table d) \<in> set zf" for name d
  proof -
    have "(name, Table d) \<notin> set ?seqs" by (auto split: option.splits)
    with that show ?thesis by (simp add: zf)
  qed
  have rows: "\<exists>f \<in> set ?sel. map_of row ''fasta_file_name'' = Some (PStr f)"
    if p: "properties (schema_arg a) = Some props" "''fasta_file_name'' \<in> fst ` set props"
      and ne: "?sel \<noteq> []" and row: "row \<in> set data" for props row
  proof -
    from ne obtain f where f: "f \<in> set ?sel" by (cases ?sel) auto
    then have "f \<in> fst ` set full" using set_select_files by blast
    then obtain e where "e \<in> set full" "fst e = f" by auto
    with f have "e \<in> set ?fl" by simp
    then have fl: "?fl \<noteq> []" by (metis empty_iff empty_set)
    have nonempty: "\<forall>e \<in> set ?fl. fst e \<noteq> []"
    proof
      fix e assume "e \<in> set ?fl"
      then have "e \<in> set (extract_headers_from_temp_dir temp_dir file_mapping)"
        using assms(4) by simp
      then have "fst e \<in> snd ` set file_mapping" using extract_headers_present by blast
      then show "fst e \<noteq> []" using created_names_not_empty [OF assms(3)] by blast
    qed
    from generate_dummy_data_refers [OF gen fl nonempty p] row
    have "refers_to ?fl row" by blast
    then show ?thesis by (auto simp: refers_to_def)
  qed
  show ?thesis
  proof (intro conjI allI impI)
    show "sequence_names zf = ?sel" by (rule names)
    show "sequence_names zf = sort (remdups (map fst full))" if "spread a = None"
      using that names by (simp add: select_files_None)
    show "sequence_names zf = take (nat s) (sort (remdups (map fst full)))"
      if "spread a = Some s \<and> 0 \<le> s" for s
      using that names by (simp add: select_files_Some)
    show "\<forall>row \<in> set d. \<exists>f \<in> set (sequence_names zf).
             map_of row ''fasta_file_name'' = Some (PStr f)"
      if "properties (schema_arg a) = Some props
            \<and> ''fasta_file_name'' \<in> fst ` set props \<and> sequence_names zf \<noteq> []"
        and "(name, Table d) \<in> set zf" for props name d
      using that rows [of props] tables [OF that(2)] names by auto
  qed
qed

theorem archive_holds_selected_files_witness:
  "main epoch_host No_fault
     \<lparr>schema_arg = \<lparr>properties = Some [(''fasta_file_name'', empty_descriptor),
                                         (''fasta_header_name'', empty_descriptor)],
                     required = None\<rparr>,
      num_rows = 3, spread = Some 1, tsv_name = ''generated_data.tsv''\<rparr>
     [(''x.fasta'', Some [''>h1\<newline>'', ''ACGT\<newline>'']), (''y.fa'', Some [''>h2\<newline>'', ''GG\<newline>''])]
     [0,0,0,0,0,0,0,0,0,0,0,0, 0,0,0,0,0,0,0,0,0,0,0,0,0,0,0,0,0,0,0,0, 1]
   = (Returned,
      \<lparr>scratch_dir = None, temp_tsv = None,
       output_zip = Some
         [(''generated_data.tsv'',
           Table [[(''fasta_file_name'', PStr ''aaaaaaaaaaaa.fasta''),
                   (''fasta_header_name'', PStr ''aaaaaaaaaaaaaaaaaaaa'')],
                  [(''fasta_file_name'', PStr ''aaaaaaaaaaaa.fasta''),
                   (''fasta_header_name'', PStr ''aaaaaaaaaaaaaaaaaaaa'')],
                  [(''fasta_file_name'', PStr ''aaaaaaaaaaaa.fasta''),
                   (''fasta_header_name'', PStr ''aaaaaaaaaaaaaaaaaaaa'')]]),
          (''aaaaaaaaaaaa.fasta'', Sequence [''>aaaaaaaaaaaaaaaaaaaa\<newline>'', ''ACGT\<newline>''])]\<rparr>)
   \<and> sequence_names
         [(''generated_data.tsv'',
           Table [[(''fasta_file_name'', PStr ''aaaaaaaaaaaa.fasta''),
                   (''fasta_header_name'', PStr ''aaaaaaaaaaaaaaaaaaaa'')],
                  [(''fasta_file_name'', PStr ''aaaaaaaaaaaa.fasta''),
                   (''fasta_header_name'', PStr ''aaaaaaaaaaaaaaaaaaaa'')],
                  [(''fasta_file_name'', PStr ''aaaaaaaaaaaa.fasta''),
                   (''fasta_header_name'', PStr ''aaaaaaaaaaaaaaaaaaaa'')]]),
          (''aaaaaaaaaaaa.fasta'', Sequence [''>aaaaaaaaaaaaaaaaaaaa\<newline>'', ''ACGT\<newline>''])]
       = take 1 (sort (remdups (map fst
           (extract_headers_from_temp_dir
              [(''aaaaaaaaaaaa.fasta'', [''>aaaaaaaaaaaaaaaaaaaa\<newline>'', ''ACGT\<newline>'']),
               (''baaaaaaaaaaa.fasta'', [''>aaaaaaaaaaaaaaaaaaaa\<newline>'', ''GG\<newline>''])]
              [(''x.fasta'', ''aaaaaaaaaaaa.fasta''), (''y.fa'', ''baaaaaaaaaaa.fasta'')]))))"
proof -
  let ?a = "\<lparr>schema_arg = \<lparr>properties = Some [(''fasta_file_name'', empty_descriptor),
                                         (''fasta_header_name'', empty_descriptor)],
                     required = None\<rparr>,
      num_rows = 3, spread = Some 1, tsv_name = ''generated_data.tsv''\<rparr>"
  let ?dir = "[(''x.fasta'', Some [''>h1\<newline>'', ''ACGT\<newline>'']), (''y.fa'', Some [''>h2\<newline>'', ''GG\<newline>''])]"
  let ?g = "[0,0,0,0,0,0,0,0,0,0,0,0, 0,0,0,0,0,0,0,0,0,0,0,0,0,0,0,0,0,0,0,0, 1::nat]"
  let ?zf = "[(''generated_data.tsv'',
           Table [[(''fasta_file_name'', PStr ''aaaaaaaaaaaa.fasta''),
                   (''fasta_header_name'', PStr ''aaaaaaaaaaaaaaaaaaaa'')],
                  [(''fasta_file_name'', PStr ''aaaaaaaaaaaa.fasta''),
                   (''fasta_header_name'', PStr ''aaaaaaaaaaaaaaaaaaaa'')],
                  [(''fasta_file_name'', PStr ''aaaaaaaaaaaa.fasta''),
                   (''fasta_header_name'', PStr ''aaaaaaaaaaaaaaaaaaaa'')]]),
          (''aaaaaaaaaaaa.fasta'', Sequence [''>aaaaaaaaaaaaaaaaaaaa\<newline>'', ''ACGT\<newline>''])]"
  let ?w = "\<lparr>scratch_dir = None, temp_tsv = None, output_zip = Some ?zf\<rparr>"
  let ?temp = "[(''aaaaaaaaaaaa.fasta'', [''>aaaaaaaaaaaaaaaaaaaa\<newline>'', ''ACGT\<newline>'']),
               (''baaaaaaaaaaa.fasta'', [''>aaaaaaaaaaaaaaaaaaaa\<newline>'', ''GG\<newline>''])]"
  let ?mapping = "[(''x.fasta'', ''aaaaaaaaaaaa.fasta''), (''y.fa'', ''baaaaaaaaaaa.fasta'')]"
  have run: "main epoch_host No_fault ?a ?dir ?g = (Returned, ?w)"
    by code_simp
  have zip: "output_zip ?w = Some ?zf" by simp
  have created: "create_randomized_fasta_files ?dir ?g = (Some ?temp, ?mapping, [])"
    by code_simp
  have sp: "spread ?a = Some 1 \<and> (0::int) \<le> 1" by simp
  from archive_holds_selected_files [OF run zip created refl] sp
  have "sequence_names ?zf
          = take (nat 1) (sort (remdups (map fst (extract_headers_from_temp_dir ?temp ?mapping))))"
    by blast
  then have "sequence_names ?zf
          = take 1 (sort (remdups (map fst (extract_headers_from_temp_dir ?temp ?mapping))))"
    by simp
  with run show ?thesis by blast
qed

text \<open>
  The claim as stated fails when fewer rows are requested than files are selected: with a
  spread of 2 over two files and a single row, the row refers to the first file only, and
  the archive holds both.
\<close>

theorem unreferenced_file_in_archive_counterexample:
  "main epoch_host No_fault
     \<lparr>schema_arg = \<lparr>properties = Some [(''fasta_file_name'', empty_descriptor),
                                         (''fasta_header_name'', empty_descriptor)],
                     required = None\<rparr>,
      num_rows = 1, spread = Some 2, tsv_name = ''generated_data.tsv''\<rparr>
     [(''x.fasta'', Some [''>h1\<newline>'', ''ACGT\<newline>'']), (''y.fa'', Some [''>h2\<newline>'', ''GG\<newline>''])]
     [0,0,0,0,0,0,0,0,0,0,0,0, 0,0,0,0,0,0,0,0,0,0,0,0,0,0,0,0,0,0,0,0, 1]
   = (Returned,
      \<lparr>scratch_dir = None, temp_tsv = None,
       output_zip = Some
         [(''generated_data.tsv'',
           Table [[(''fasta_file_name'', PStr ''aaaaaaaaaaaa.fasta''),
                   (''fasta_header_name'', PStr ''aaaaaaaaaaaaaaaaaaaa'')]]),
          (''aaaaaaaaaaaa.fasta'', Sequence [''>aaaaaaaaaaaaaaaaaaaa\<newline>'', ''ACGT\<newline>'']),
          (''baaaaaaaaaaa.fasta'', Sequence [''>aaaaaaaaaaaaaaaaaaaa\<newline>'', ''GG\<newline>''])]\<rparr>)"
  by code_simp

section \<open>What a run leaves behind\<close>

lemma main_removes_scratch_dir: "scratch_dir (snd (main hst flt a source_dir g)) = None"
  by (simp add: main_def split: prod.splits option.splits)

lemma main_removes_table_without_fault: "temp_tsv (snd (main hst No_fault a source_dir g)) = None"
  by (simp add: main_def main_body_def Let_def split: prod.splits option.splits sum.splits)

text \<open>
  Claim C5 at a run whose archive cannot be written. The exception leaves the
  \<^verbatim>\<open>try\<close> block before the table file is unlinked; the \<^verbatim>\<open>finally\<close> clause removes the
  scratch directory only. The temporary table file is still there when the run ends.
\<close>

theorem zip_failure_leaves_table:
  "main epoch_host Zip_fault
     \<lparr>schema_arg = \<lparr>properties = Some [(''fasta_file_name'', empty_descriptor),
                                         (''fasta_header_name'', empty_descriptor)],
                     required = None\<rparr>,
      num_rows = 1, spread = None, tsv_name = ''generated_data.tsv''\<rparr>
     [(''x.fasta'', Some [''>seq1\<newline>'', ''ACGT\<newline>''])] []
   = (Raised OSError,
      \<lparr>scratch_dir = None,
       temp_tsv = Some [[(''fasta_file_name'', PStr ''aaaaaaaaaaaa.fasta''),
                         (''fasta_header_name'', PStr ''aaaaaaaaaaaaaaaaaaaa'')]],
       output_zip = None\<rparr>)"
  by code_simp

section \<open>The uploader's outcome\<close>







end
